theory Spec2Isabelle
  imports Main "HOL-Library.Word" "HOL-Library.Multiset"
begin

section \<open>The data model of \<open>sjtu::map\<close> (src/map.hpp)\<close>

text \<open>
  The map owns its nodes exclusively through the \<open>left\<close>/\<open>right\<close> links that start at
  \<open>root\<close>; no node is ever reachable along two such paths. The owned part of the heap is
  therefore written as a datatype: a link is either \<open>Null\<close> (the C++ \<open>nullptr\<close>) or the
  node it points to, and that node carries its own address, so that the identity of a
  node (which memory block is kept, which one is handed to \<open>delete\<close>) stays observable.
  The fields of a node follow \<open>struct Node\<close>: \<open>value\<close>, \<open>left\<close>, \<open>right\<close>,
  \<open>parent\<close>, \<open>height\<close>. The back-reference \<open>parent\<close> and the position held by an
  iterator do not own anything; they are plain addresses (\<open>None\<close> for \<open>nullptr\<close>).

  The field \<open>height\<close> is a C++ \<open>int\<close>; it is modelled by an unbounded integer, and
  lemma \<open>avl_height_int_range\<close> below shows that in a balanced tree with fewer than
  \<open>2 ^ 64\<close> nodes the heights stay far inside the range of \<open>int\<close>. The member \<open>n\<close>
  is a \<open>size_t\<close> and is modelled by a 64 bit word, \<open>++n\<close> and \<open>--n\<close> wrapping as the
  machine does.

  Dereferencing \<open>nullptr\<close> or an address that is not a node of the tree has no defined
  behaviour in C++. Every function that can do so returns an \<open>option\<close>, and \<open>None\<close>
  stands for that situation.
\<close>

type_synonym addr = nat

datatype ('k, 'v) node =
  Null
| Node addr "'k \<times> 'v" "('k, 'v) node" "('k, 'v) node" "addr option" int

record ('k, 'v) map_state =
  root :: "('k, 'v) node"
  n :: "64 word"

record iterator =
  cur :: "addr option"
  owner :: "addr option"

datatype exception = invalid_iterator | index_out_of_bound

text \<open>The value of a pointer variable that holds the given link.\<close>

fun ptr_of :: "('k, 'v) node \<Rightarrow> addr option" where
  "ptr_of Null = None"
| "ptr_of (Node a v l r p ht) = Some a"

text \<open>\<open>if (t) t->parent = p;\<close>\<close>

fun set_parent :: "addr option \<Rightarrow> ('k, 'v) node \<Rightarrow> ('k, 'v) node" where
  "set_parent p Null = Null"
| "set_parent p (Node a v l r q ht) = Node a v l r p ht"

text \<open>
  Reading through a non-owning pointer: the node of the tree that lives at address \<open>x\<close>
  (\<open>Null\<close> when there is none, in which case the pointer dangles).
\<close>

fun node_at :: "('k, 'v) node \<Rightarrow> addr \<Rightarrow> ('k, 'v) node" where
  "node_at Null x = Null"
| "node_at (Node a v l r p ht) x =
     (if a = x then Node a v l r p ht
      else (case node_at l x of Null \<Rightarrow> node_at r x | Node b w l' r' q g \<Rightarrow> Node b w l' r' q g))"

section \<open>Tree engine\<close>

fun h :: "('k, 'v) node \<Rightarrow> int" where
  "h Null = 0"
| "h (Node a v l r p ht) = ht"

definition max2 :: "int \<Rightarrow> int \<Rightarrow> int" where
  "max2 a b = (if a > b then a else b)"

fun upd :: "('k, 'v) node \<Rightarrow> ('k, 'v) node" where
  "upd Null = Null"
| "upd (Node a v l r p ht) = Node a v l r p (1 + max2 (h l) (h r))"

fun bf :: "('k, 'v) node \<Rightarrow> int" where
  "bf Null = 0"
| "bf (Node a v l r p ht) = h l - h r"

text \<open>
  \<open>rotateRight(y)\<close>: \<open>x = y->left\<close> is dereferenced, so \<open>y\<close> and \<open>y->left\<close> have to be
  nodes. The last assignment \<open>x->parent = y->parent\<close> runs after \<open>y->parent = x\<close>, so
  it stores the address of \<open>x\<close> itself; the caller repairs it.
\<close>

fun rotateRight :: "('k, 'v) node \<Rightarrow> ('k, 'v) node option" where
  "rotateRight (Node ya yv (Node xa xv xl T2 xp xh) yr yp yh) =
     (let y = upd (Node ya yv (set_parent (Some ya) T2) yr (Some xa) yh)
      in Some (set_parent (Some xa) (upd (Node xa xv xl y xp xh))))"
| "rotateRight (Node ya yv Null yr yp yh) = None"
| "rotateRight Null = None"

fun rotateLeft :: "('k, 'v) node \<Rightarrow> ('k, 'v) node option" where
  "rotateLeft (Node xa xv xl (Node ya yv T2 yr yp yh) xp xh) =
     (let x = upd (Node xa xv xl (set_parent (Some xa) T2) (Some ya) xh)
      in Some (set_parent (Some ya) (upd (Node ya yv x yr yp yh))))"
| "rotateLeft (Node xa xv xl Null xp xh) = None"
| "rotateLeft Null = None"

text \<open>\<open>if (newRoot->right) newRoot->right->parent = newRoot;\<close> and its mirror image.\<close>

fun fix_right :: "('k, 'v) node \<Rightarrow> ('k, 'v) node option" where
  "fix_right Null = None"
| "fix_right (Node a v l r p ht) = Some (Node a v l (set_parent (Some a) r) p ht)"

fun fix_left :: "('k, 'v) node \<Rightarrow> ('k, 'v) node option" where
  "fix_left Null = None"
| "fix_left (Node a v l r p ht) = Some (Node a v (set_parent (Some a) l) r p ht)"

text \<open>
  \<open>rebalance(node)\<close>. After \<open>upd(node)\<close> the height stored in \<open>node\<close> is \<open>ht\<close>, and
  \<open>bf(node)\<close> is \<open>h(node->left) - h(node->right)\<close>, the value \<open>b\<close>. On \<open>nullptr\<close> both
  \<open>upd\<close> and \<open>bf\<close> do nothing and the pointer is returned.
\<close>

fun rebalance :: "('k, 'v) node \<Rightarrow> ('k, 'v) node option" where
  "rebalance Null = Some Null"
| "rebalance (Node a v l r p ht0) =
     (let ht = 1 + max2 (h l) (h r); b = h l - h r in
      if b > 1 then
        (case (if bf l < 0 then map_option (set_parent (Some a)) (rotateLeft l) else Some l) of
           None \<Rightarrow> None
         | Some l' \<Rightarrow> Option.bind (rotateRight (Node a v l' r p ht)) fix_right)
      else if b < - 1 then
        (case (if bf r > 0 then map_option (set_parent (Some a)) (rotateRight r) else Some r) of
           None \<Rightarrow> None
         | Some r' \<Rightarrow> Option.bind (rotateLeft (Node a v l r' p ht)) fix_left)
      else Some (Node a v l r p ht))"

fun minNode :: "('k, 'v) node \<Rightarrow> ('k, 'v) node" where
  "minNode Null = Null"
| "minNode (Node a v l r p ht) = (if l = Null then Node a v l r p ht else minNode l)"

fun maxNode :: "('k, 'v) node \<Rightarrow> ('k, 'v) node" where
  "maxNode Null = Null"
| "maxNode (Node a v l r p ht) = (if r = Null then Node a v l r p ht else maxNode r)"

text \<open>
  The upward loops of \<open>successor\<close> and \<open>predecessor\<close>:
  \<open>while (p && x == p->right) { x = p; p = p->parent; } return p;\<close>.
  The pointers are resolved in the tree of the owning map. \<open>None\<close> is returned when a
  pointer dangles, and is also the value of a loop that does not end.
\<close>

partial_function (option) climb_right ::
  "('k, 'v) node \<Rightarrow> addr \<Rightarrow> addr option \<Rightarrow> addr option option" where
  "climb_right t x p =
     (case p of
        None \<Rightarrow> Some None
      | Some pa \<Rightarrow>
          (case node_at t pa of
             Null \<Rightarrow> None
           | Node a v l r q ht \<Rightarrow>
               if ptr_of r = Some x then climb_right t pa q else Some (Some pa)))"

partial_function (option) climb_left ::
  "('k, 'v) node \<Rightarrow> addr \<Rightarrow> addr option \<Rightarrow> addr option option" where
  "climb_left t x p =
     (case p of
        None \<Rightarrow> Some None
      | Some pa \<Rightarrow>
          (case node_at t pa of
             Null \<Rightarrow> None
           | Node a v l r q ht \<Rightarrow>
               if ptr_of l = Some x then climb_left t pa q else Some (Some pa)))"

definition successor :: "('k, 'v) node \<Rightarrow> addr option \<Rightarrow> addr option option" where
  "successor t x =
     (case x of
        None \<Rightarrow> Some None
      | Some xa \<Rightarrow>
          (case node_at t xa of
             Null \<Rightarrow> None
           | Node a v l r p ht \<Rightarrow>
               if r \<noteq> Null then Some (ptr_of (minNode r)) else climb_right t xa p))"

definition predecessor :: "('k, 'v) node \<Rightarrow> addr option \<Rightarrow> addr option option" where
  "predecessor t x =
     (case x of
        None \<Rightarrow> Some None
      | Some xa \<Rightarrow>
          (case node_at t xa of
             Null \<Rightarrow> None
           | Node a v l r p ht \<Rightarrow>
               if l \<noteq> Null then Some (ptr_of (maxNode l)) else climb_left t xa p))"

fun findNode :: "('k \<Rightarrow> 'k \<Rightarrow> bool) \<Rightarrow> ('k, 'v) node \<Rightarrow> 'k \<Rightarrow> ('k, 'v) node" where
  "findNode cmp Null key = Null"
| "findNode cmp (Node a v l r p ht) key =
     (if cmp key (fst v) then findNode cmp l key
      else if cmp (fst v) key then findNode cmp r key
      else Node a v l r p ht)"

text \<open>
  The statements that follow \<open>Node *res = rebalance(node);\<close> in \<open>insertNode\<close> and
  in \<open>eraseByNode\<close>: \<open>if (res->left) res->left->parent = res;\<close> and the same for
  \<open>res->right\<close>. They dereference \<open>res\<close>.
\<close>

fun relink :: "('k, 'v) node \<Rightarrow> ('k, 'v) node option" where
  "relink Null = None"
| "relink (Node a v l r p ht) =
     Some (Node a v (set_parent (Some a) l) (set_parent (Some a) r) p ht)"

text \<open>
  \<open>insertNode(node, parent, val, inserted, insertedPtr)\<close>. The address \<open>nn\<close> is the one
  that \<open>new Node\<close> returns, should the call allocate. The results are the returned
  pointer, the values left in \<open>inserted\<close> and \<open>*insertedPtr\<close>, and the member \<open>n\<close>.
\<close>

fun insertNode ::
  "('k \<Rightarrow> 'k \<Rightarrow> bool) \<Rightarrow> addr \<Rightarrow> ('k, 'v) node \<Rightarrow> addr option \<Rightarrow> 'k \<times> 'v \<Rightarrow> 64 word \<Rightarrow>
   (('k, 'v) node \<times> bool \<times> addr option \<times> 64 word) option" where
  "insertNode cmp nn Null parent val cnt =
     Some (Node nn val Null Null parent 1, True, Some nn, cnt + 1)"
| "insertNode cmp nn (Node a v l r p ht) parent val cnt =
     (if cmp (fst val) (fst v) then
        (case insertNode cmp nn l (Some a) val cnt of
           None \<Rightarrow> None
         | Some (l', inserted, ins, cnt') \<Rightarrow>
             map_option (\<lambda>res. (set_parent parent res, inserted, ins, cnt'))
               (Option.bind (rebalance (Node a v l' r p ht)) relink))
      else if cmp (fst v) (fst val) then
        (case insertNode cmp nn r (Some a) val cnt of
           None \<Rightarrow> None
         | Some (r', inserted, ins, cnt') \<Rightarrow>
             map_option (\<lambda>res. (set_parent parent res, inserted, ins, cnt'))
               (Option.bind (rebalance (Node a v l r' p ht)) relink))
      else Some (Node a v l r p ht, False, Some a, cnt))"

text \<open>
  \<open>eraseByNode(node, target, erased)\<close>. The target is passed as its address together
  with the key stored there: the source reads \<open>target->value.first\<close> at every level of
  the descent, and the node \<open>target\<close> is not written before it is found. The results are
  the returned pointer, the value left in \<open>erased\<close>, the member \<open>n\<close>, and the addresses
  handed to \<open>delete\<close>.
\<close>

fun eraseByNode ::
  "('k \<Rightarrow> 'k \<Rightarrow> bool) \<Rightarrow> ('k, 'v) node \<Rightarrow> addr \<times> 'k \<Rightarrow> bool \<Rightarrow> 64 word \<Rightarrow>
   (('k, 'v) node \<times> bool \<times> 64 word \<times> addr list) option" where
  "eraseByNode cmp Null target erased cnt = Some (Null, erased, cnt, [])"
| "eraseByNode cmp (Node a v l r p ht) target erased cnt =
     (if a = fst target then
        (if l = Null \<or> r = Null then
           Some (set_parent p (if l \<noteq> Null then l else r), True, cnt - 1, [a])
         else
           (case minNode r of
              Null \<Rightarrow> None
            | Node sa tmp sl sr sp sh \<Rightarrow>
                (case eraseByNode cmp r (sa, fst tmp) False cnt of
                   None \<Rightarrow> None
                 | Some (r', erased2, cnt', freed) \<Rightarrow>
                     map_option (\<lambda>res. (res, True, cnt', freed))
                       (Option.bind (rebalance (Node a tmp l (set_parent (Some a) r') p ht))
                          relink))))
      else if cmp (snd target) (fst v) then
        (case eraseByNode cmp l target erased cnt of
           None \<Rightarrow> None
         | Some (l', erased', cnt', freed) \<Rightarrow>
             map_option (\<lambda>res. (res, erased', cnt', freed))
               (Option.bind (rebalance (Node a v (set_parent (Some a) l') r p ht)) relink))
      else
        (case eraseByNode cmp r target erased cnt of
           None \<Rightarrow> None
         | Some (r', erased', cnt', freed) \<Rightarrow>
             map_option (\<lambda>res. (res, erased', cnt', freed))
               (Option.bind (rebalance (Node a v l (set_parent (Some a) r') p ht)) relink)))"

text \<open>\<open>destroy(x)\<close>: the addresses handed to \<open>delete\<close>, in the order of the calls.\<close>

fun destroy :: "('k, 'v) node \<Rightarrow> addr list" where
  "destroy Null = []"
| "destroy (Node a v l r p ht) = destroy l @ destroy r @ [a]"

text \<open>
  \<open>clone(x, parent)\<close>. Every node of the source gets a new node from \<open>new\<close>; \<open>f\<close> maps
  the address of a source node to the address of its copy.
\<close>

fun clone :: "(addr \<Rightarrow> addr) \<Rightarrow> ('k, 'v) node \<Rightarrow> addr option \<Rightarrow> ('k, 'v) node" where
  "clone f Null parent = Null"
| "clone f (Node a v l r p ht) parent =
     Node (f a) v (clone f l (Some (f a))) (clone f r (Some (f a))) parent ht"

section \<open>Iterators\<close>

text \<open>
  An iterator is the pair \<open>(cur, owner)\<close>. \<open>iterator\<close> and \<open>const_iterator\<close> have
  the same fields and, operation by operation, the same bodies, so one set of
  definitions serves both. Where an operation reads \<open>owner->root\<close>, the state \<open>m\<close> of
  the map that \<open>owner\<close> points to is an argument. The result of an operation that
  changes the iterator is the new iterator (paired with the returned copy for the
  postfix forms), or the exception thrown, in which case the iterator is as before.
\<close>

definition pre_inc :: "('k, 'v) map_state \<Rightarrow> iterator \<Rightarrow> (exception + iterator) option" where
  "pre_inc m it =
     (if owner it = None then Some (Inl invalid_iterator)
      else if cur it = None then Some (Inl invalid_iterator)
      else map_option (\<lambda>c. Inr (it\<lparr>cur := c\<rparr>)) (successor (root m) (cur it)))"

definition post_inc ::
  "('k, 'v) map_state \<Rightarrow> iterator \<Rightarrow> (exception + iterator \<times> iterator) option" where
  "post_inc m it =
     (if owner it = None then Some (Inl invalid_iterator)
      else if cur it = None then Some (Inl invalid_iterator)
      else map_option (\<lambda>c. Inr (it, it\<lparr>cur := c\<rparr>)) (successor (root m) (cur it)))"

definition pre_dec :: "('k, 'v) map_state \<Rightarrow> iterator \<Rightarrow> (exception + iterator) option" where
  "pre_dec m it =
     (if owner it = None then Some (Inl invalid_iterator)
      else if cur it = None then
        (if root m = Null then Some (Inl invalid_iterator)
         else Some (Inr (it\<lparr>cur := ptr_of (maxNode (root m))\<rparr>)))
      else if cur it = ptr_of (minNode (root m)) then Some (Inl invalid_iterator)
      else map_option (\<lambda>c. Inr (it\<lparr>cur := c\<rparr>)) (predecessor (root m) (cur it)))"

definition post_dec ::
  "('k, 'v) map_state \<Rightarrow> iterator \<Rightarrow> (exception + iterator \<times> iterator) option" where
  "post_dec m it =
     (if owner it = None then Some (Inl invalid_iterator)
      else if cur it = None then
        (if root m = Null then Some (Inl invalid_iterator)
         else Some (Inr (it, it\<lparr>cur := ptr_of (maxNode (root m))\<rparr>)))
      else if cur it = ptr_of (minNode (root m)) then Some (Inl invalid_iterator)
      else map_option (\<lambda>c. Inr (it, it\<lparr>cur := c\<rparr>)) (predecessor (root m) (cur it)))"

text \<open>\<open>operator*\<close>: the pair stored in the node \<open>cur\<close>.\<close>

definition star :: "('k, 'v) map_state \<Rightarrow> iterator \<Rightarrow> (exception + 'k \<times> 'v) option" where
  "star m it =
     (if owner it = None \<or> cur it = None then Some (Inl invalid_iterator)
      else (case node_at (root m) (the (cur it)) of
              Null \<Rightarrow> None
            | Node a v l r p ht \<Rightarrow> Some (Inr v)))"

text \<open>
  \<open>operator->\<close> is declared \<open>noexcept\<close> and only computes an address: the result is the
  pointer to the pair of the node \<open>cur\<close>, written as the address of that node, or
  \<open>nullptr\<close>. No branch of it throws.
\<close>

definition arrow :: "iterator \<Rightarrow> exception + addr option" where
  "arrow it = (if owner it = None \<or> cur it = None then Inr None else Inr (cur it))"

definition iter_eq :: "iterator \<Rightarrow> iterator \<Rightarrow> bool" where
  "iter_eq a b = (owner a = owner b \<and> cur a = cur b)"

section \<open>Map facade\<close>

text \<open>
  A member function of the map takes the address \<open>this\<close> of the map object, where it
  uses it, and the state \<open>m\<close> of that object. A function that can write to the object
  returns its state at the end of the call next to the result; when the result is an
  exception, that is the state in which the exception leaves the object. The comparator
  member is always the value \<open>Compare()\<close> (no constructor or assignment copies it); it
  is the argument \<open>cmp\<close>.
\<close>

definition map_default :: "('k, 'v) map_state" where
  "map_default = \<lparr>root = Null, n = 0\<rparr>"

text \<open>The locals \<open>if (root) { if (root->left) ...; if (root->right) ...; }\<close> of copying.\<close>

fun fix_root_children :: "('k, 'v) node \<Rightarrow> ('k, 'v) node" where
  "fix_root_children Null = Null"
| "fix_root_children (Node a v l r p ht) =
     Node a v (set_parent (Some a) l) (set_parent (Some a) r) p ht"

definition map_copy :: "(addr \<Rightarrow> addr) \<Rightarrow> ('k, 'v) map_state \<Rightarrow> ('k, 'v) map_state" where
  "map_copy f other = \<lparr>root = fix_root_children (clone f (root other) None), n = n other\<rparr>"

text \<open>\<open>clear()\<close>: the new state and the addresses handed to \<open>delete\<close>.\<close>

definition clear :: "('k, 'v) map_state \<Rightarrow> ('k, 'v) map_state \<times> addr list" where
  "clear m = (\<lparr>root = Null, n = 0\<rparr>, destroy (root m))"

text \<open>
  \<open>operator=\<close>: \<open>this\<close> and \<open>other_addr\<close> are the addresses of the two objects; on
  self-assignment nothing happens.
\<close>

definition assign ::
  "(addr \<Rightarrow> addr) \<Rightarrow> addr \<Rightarrow> ('k, 'v) map_state \<Rightarrow> addr \<Rightarrow> ('k, 'v) map_state \<Rightarrow>
   ('k, 'v) map_state \<times> addr list" where
  "assign f this m other_addr other =
     (if this = other_addr then (m, [])
      else (\<lparr>root = fix_root_children (clone f (root other) None), n = n other\<rparr>,
            snd (clear m)))"

text \<open>
  \<open>T &at(const Key &)\<close>. The reference returned is written as the address of the node
  and the mapped value found there.
\<close>

definition at ::
  "('k \<Rightarrow> 'k \<Rightarrow> bool) \<Rightarrow> ('k, 'v) map_state \<Rightarrow> 'k \<Rightarrow>
   (exception + addr \<times> 'v) \<times> ('k, 'v) map_state" where
  "at cmp m key =
     (case findNode cmp (root m) key of
        Null \<Rightarrow> (Inl index_out_of_bound, m)
      | Node a v l r p ht \<Rightarrow> (Inr (a, snd v), m))"

definition at_const ::
  "('k \<Rightarrow> 'k \<Rightarrow> bool) \<Rightarrow> ('k, 'v) map_state \<Rightarrow> 'k \<Rightarrow> exception + addr \<times> 'v" where
  "at_const cmp m key =
     (case findNode cmp (root m) key of
        Null \<Rightarrow> Inl index_out_of_bound
      | Node a v l r p ht \<Rightarrow> Inr (a, snd v))"

text \<open>
  \<open>T &operator[](const Key &)\<close>; \<open>dflt\<close> is the value \<open>T()\<close> and \<open>nn\<close> the address
  that \<open>new\<close> returns if a node is allocated.
\<close>

definition index_rw ::
  "('k \<Rightarrow> 'k \<Rightarrow> bool) \<Rightarrow> addr \<Rightarrow> 'v \<Rightarrow> ('k, 'v) map_state \<Rightarrow> 'k \<Rightarrow>
   ((addr \<times> 'v) \<times> ('k, 'v) map_state) option" where
  "index_rw cmp nn dflt m key =
     (case findNode cmp (root m) key of
        Node a v l r p ht \<Rightarrow> Some ((a, snd v), m)
      | Null \<Rightarrow>
          (case insertNode cmp nn (root m) None (key, dflt) (n m) of
             None \<Rightarrow> None
           | Some (res, inserted, ins, cnt) \<Rightarrow>
               (let m' = \<lparr>root = set_parent None res, n = cnt\<rparr> in
                case ins of
                  None \<Rightarrow> None
                | Some ia \<Rightarrow>
                    (case node_at (root m') ia of
                       Null \<Rightarrow> None
                     | Node a v l r p ht \<Rightarrow> Some ((a, snd v), m')))))"

definition index_const ::
  "('k \<Rightarrow> 'k \<Rightarrow> bool) \<Rightarrow> ('k, 'v) map_state \<Rightarrow> 'k \<Rightarrow> exception + addr \<times> 'v" where
  "index_const cmp m key =
     (case findNode cmp (root m) key of
        Null \<Rightarrow> Inl index_out_of_bound
      | Node a v l r p ht \<Rightarrow> Inr (a, snd v))"

definition begin_it :: "addr \<Rightarrow> ('k, 'v) map_state \<Rightarrow> iterator" where
  "begin_it this m = \<lparr>cur = ptr_of (minNode (root m)), owner = Some this\<rparr>"

definition cbegin :: "addr \<Rightarrow> ('k, 'v) map_state \<Rightarrow> iterator" where
  "cbegin this m = \<lparr>cur = ptr_of (minNode (root m)), owner = Some this\<rparr>"

definition end_it :: "addr \<Rightarrow> ('k, 'v) map_state \<Rightarrow> iterator" where
  "end_it this m = \<lparr>cur = None, owner = Some this\<rparr>"

definition cend :: "addr \<Rightarrow> ('k, 'v) map_state \<Rightarrow> iterator" where
  "cend this m = \<lparr>cur = None, owner = Some this\<rparr>"

definition empty_map :: "('k, 'v) map_state \<Rightarrow> bool" where
  "empty_map m = (n m = 0)"

definition size_map :: "('k, 'v) map_state \<Rightarrow> 64 word" where
  "size_map m = n m"

definition insert_map ::
  "('k \<Rightarrow> 'k \<Rightarrow> bool) \<Rightarrow> addr \<Rightarrow> addr \<Rightarrow> ('k, 'v) map_state \<Rightarrow> 'k \<times> 'v \<Rightarrow>
   ((iterator \<times> bool) \<times> ('k, 'v) map_state) option" where
  "insert_map cmp this nn m val =
     (case insertNode cmp nn (root m) None val (n m) of
        None \<Rightarrow> None
      | Some (res, inserted, ins, cnt) \<Rightarrow>
          Some ((\<lparr>cur = ins, owner = Some this\<rparr>, inserted),
                \<lparr>root = set_parent None res, n = cnt\<rparr>))"

text \<open>
  \<open>erase(pos)\<close>. A normal return is \<open>Inr\<close> of the addresses handed to \<open>delete\<close>. The
  key of the target is read through \<open>pos.cur\<close>; if no node of the tree lives there, the
  pointer dangles.
\<close>

definition erase ::
  "('k \<Rightarrow> 'k \<Rightarrow> bool) \<Rightarrow> addr \<Rightarrow> ('k, 'v) map_state \<Rightarrow> iterator \<Rightarrow>
   ((exception + addr list) \<times> ('k, 'v) map_state) option" where
  "erase cmp this m pos =
     (if owner pos \<noteq> Some this \<or> cur pos = None then Some (Inl invalid_iterator, m)
      else
        (case node_at (root m) (the (cur pos)) of
           Null \<Rightarrow> None
         | Node a v l r p ht \<Rightarrow>
             (case eraseByNode cmp (root m) (a, fst v) False (n m) of
                None \<Rightarrow> None
              | Some (res, erased, cnt, freed) \<Rightarrow>
                  Some (if erased then Inr freed else Inl invalid_iterator,
                        \<lparr>root = set_parent None res, n = cnt\<rparr>))))"

definition count_map :: "('k \<Rightarrow> 'k \<Rightarrow> bool) \<Rightarrow> ('k, 'v) map_state \<Rightarrow> 'k \<Rightarrow> 64 word" where
  "count_map cmp m key = (if findNode cmp (root m) key \<noteq> Null then 1 else 0)"

definition find_map ::
  "('k \<Rightarrow> 'k \<Rightarrow> bool) \<Rightarrow> addr \<Rightarrow> ('k, 'v) map_state \<Rightarrow> 'k \<Rightarrow> iterator" where
  "find_map cmp this m key = \<lparr>cur = ptr_of (findNode cmp (root m) key), owner = Some this\<rparr>"

section \<open>Invariants of the data model\<close>

text \<open>The in-order traversal: the stored pairs, their keys, the addresses of the nodes.\<close>

fun inorder :: "('k, 'v) node \<Rightarrow> ('k \<times> 'v) list" where
  "inorder Null = []"
| "inorder (Node a v l r p ht) = inorder l @ v # inorder r"

definition keys :: "('k, 'v) node \<Rightarrow> 'k list" where
  "keys t = map fst (inorder t)"

fun addrs :: "('k, 'v) node \<Rightarrow> addr list" where
  "addrs Null = []"
| "addrs (Node a v l r p ht) = addrs l @ a # addrs r"

text \<open>The comparator is a strict weak ordering; equivalence is mutual incomparability.\<close>

definition equivalent :: "('k \<Rightarrow> 'k \<Rightarrow> bool) \<Rightarrow> 'k \<Rightarrow> 'k \<Rightarrow> bool" where
  "equivalent cmp x y = (\<not> cmp x y \<and> \<not> cmp y x)"

definition strict_weak_order :: "('k \<Rightarrow> 'k \<Rightarrow> bool) \<Rightarrow> bool" where
  "strict_weak_order cmp =
     ((\<forall>x. \<not> cmp x x) \<and>
      (\<forall>x y z. cmp x y \<longrightarrow> cmp y z \<longrightarrow> cmp x z) \<and>
      (\<forall>x y z. equivalent cmp x y \<longrightarrow> equivalent cmp y z \<longrightarrow> equivalent cmp x z))"

text \<open>Invariants 1 and 2: the keys in order are strictly ascending, pairwise.\<close>

definition bst :: "('k \<Rightarrow> 'k \<Rightarrow> bool) \<Rightarrow> ('k, 'v) node \<Rightarrow> bool" where
  "bst cmp t = sorted_wrt cmp (keys t)"

text \<open>The true height of a subtree, counted in nodes.\<close>

fun height :: "('k, 'v) node \<Rightarrow> int" where
  "height Null = 0"
| "height (Node a v l r p ht) = 1 + max (height l) (height r)"

text \<open>Invariants 3 and 4: balance, and the cached height is the true one.\<close>

fun avl :: "('k, 'v) node \<Rightarrow> bool" where
  "avl Null = True"
| "avl (Node a v l r p ht) =
     (\<bar>height l - height r\<bar> \<le> 1 \<and> ht = 1 + max (height l) (height r) \<and> avl l \<and> avl r)"

text \<open>Invariant 5: the parent field of the root of \<open>t\<close> is \<open>p\<close>, and so on downwards.\<close>

fun parents_ok :: "addr option \<Rightarrow> ('k, 'v) node \<Rightarrow> bool" where
  "parents_ok p Null = True"
| "parents_ok p (Node a v l r q ht) =
     (q = p \<and> parents_ok (Some a) l \<and> parents_ok (Some a) r)"

text \<open>
  Invariant 6, and that distinct nodes live at distinct addresses. The count is compared
  in the word type, as the member is one.
\<close>

definition map_inv :: "('k \<Rightarrow> 'k \<Rightarrow> bool) \<Rightarrow> ('k, 'v) map_state \<Rightarrow> bool" where
  "map_inv cmp m =
     (bst cmp (root m) \<and> avl (root m) \<and> parents_ok None (root m) \<and>
      distinct (addrs (root m)) \<and> n m = of_nat (length (addrs (root m))))"

text \<open>The in-order list of the nodes: the address of each with the pair it stores.\<close>

fun entries :: "('k, 'v) node \<Rightarrow> (addr \<times> 'k \<times> 'v) list" where
  "entries Null = []"
| "entries (Node a v l r p ht) = entries l @ (a, v) # entries r"

text \<open>
  Invariant 5 below the root of \<open>t\<close>: what holds of a subtree whose own parent field is
  still to be written by the caller.
\<close>

fun kids_ok :: "('k, 'v) node \<Rightarrow> bool" where
  "kids_ok Null = True"
| "kids_ok (Node a v l r q ht) = (parents_ok (Some a) l \<and> parents_ok (Some a) r)"

text \<open>
  The node that erasing the node at address \<open>x\<close> hands to \<open>delete\<close>: that node itself
  when it has at most one child, the leftmost node of its right subtree otherwise.
\<close>

definition freed_by_erase :: "('k, 'v) node \<Rightarrow> addr \<Rightarrow> ('k, 'v) node" where
  "freed_by_erase t x =
     (case node_at t x of
        Null \<Rightarrow> Null
      | Node a v l r p ht \<Rightarrow> if l = Null \<or> r = Null then Node a v l r p ht else minNode r)"

text \<open>The element just before \<open>x\<close> in a list, if \<open>x\<close> occurs and is not the first.\<close>

fun pred_in :: "'a list \<Rightarrow> 'a \<Rightarrow> 'a option" where
  "pred_in [] x = None"
| "pred_in [y] x = None"
| "pred_in (y # z # zs) x = (if z = x then Some y else pred_in (z # zs) x)"

section \<open>A small map used in the examples\<close>

text \<open>
  Three integer keys: 5 at the root (address 1), 3 to its left (address 2) and 8 to its
  right (address 3).
\<close>

definition ex_map :: "(int, int) map_state" where
  "ex_map =
     \<lparr>root = Node 1 (5, 50) (Node 2 (3, 30) Null Null (Some 1) 1)
               (Node 3 (8, 80) Null Null (Some 1) 1) None 2,
      n = 3\<rparr>"

section \<open>Sequences of insertions and erasures\<close>

text \<open>
  A caller's sequence of \<open>insert\<close> and \<open>erase\<close> calls on one map. An insertion carries
  the address that \<open>new\<close> returns if the call allocates; no allocator returns the address
  of a live node, so a sequence that supplies one is not an execution and has the value
  \<open>None\<close>, as has a sequence in which \<open>erase\<close> reads through a dangling pointer. An
  exception thrown by \<open>erase\<close> is caught by the caller, and the sequence goes on with the
  state the exception left.
\<close>

datatype ('k, 'v) operation = Insert addr "'k \<times> 'v" | Erase iterator

fun run ::
  "('k \<Rightarrow> 'k \<Rightarrow> bool) \<Rightarrow> addr \<Rightarrow> ('k, 'v) operation list \<Rightarrow> ('k, 'v) map_state \<Rightarrow>
   ('k, 'v) map_state option" where
  "run cmp this [] m = Some m"
| "run cmp this (Insert nn val # ops) m =
     (if nn \<in> set (addrs (root m)) then None
      else (case insert_map cmp this nn m val of
              None \<Rightarrow> None
            | Some (res, m') \<Rightarrow> run cmp this ops m'))"
| "run cmp this (Erase pos # ops) m =
     (case erase cmp this m pos of
        None \<Rightarrow> None
      | Some (res, m') \<Rightarrow> run cmp this ops m')"

section \<open>Basic facts\<close>

lemma max2_max [simp]: "max2 a b = max a b"
  by (simp add: max2_def)

lemma height_nonneg [simp]: "0 \<le> height t"
  by (induction t) auto

lemma height_eq_0 [simp]: "(height t = 0) = (t = Null)"
proof (cases t)
  case (Node a v l r p ht)
  have "0 \<le> height l" "0 \<le> height r" by simp_all
  then have "1 + max (height l) (height r) \<noteq> 0" by linarith
  then show ?thesis using Node by simp
qed simp

lemma height_pos [simp]: "0 < height (Node a v l r p ht)"
proof -
  have "0 \<le> height l" "0 \<le> height r" by simp_all
  then have "0 < 1 + max (height l) (height r)" by linarith
  then show ?thesis by simp
qed

lemma h_height [simp]: "avl t \<Longrightarrow> h t = height t"
  by (cases t) auto

lemma map_snd_entries [simp]: "map snd (entries t) = inorder t"
  by (induction t) auto

lemma map_fst_entries [simp]: "map fst (entries t) = addrs t"
  by (induction t) auto

lemma set_parent_simps [simp]:
  "inorder (set_parent p t) = inorder t"
  "addrs (set_parent p t) = addrs t"
  "entries (set_parent p t) = entries t"
  "height (set_parent p t) = height t"
  "h (set_parent p t) = h t"
  "bf (set_parent p t) = bf t"
  "avl (set_parent p t) = avl t"
  "ptr_of (set_parent p t) = ptr_of t"
  "kids_ok (set_parent p t) = kids_ok t"
  "parents_ok p (set_parent p t) = kids_ok t"
  "(set_parent p t = Null) = (t = Null)"
  by (cases t; simp)+

lemma set_parent_id [simp]: "parents_ok p t \<Longrightarrow> set_parent p t = t"
  by (cases t) auto

lemma parents_ok_kids: "parents_ok p t \<Longrightarrow> kids_ok t"
  by (cases t) auto

lemma keys_set_parent [simp]: "keys (set_parent p t) = keys t"
  by (simp add: keys_def)

lemma bst_set_parent [simp]: "bst cmp (set_parent p t) = bst cmp t"
  by (simp add: bst_def)

subsection \<open>Rotations and \<open>rebalance\<close>\<close>

lemma rotateRight_entries:
  "rotateRight t = Some t' \<Longrightarrow> entries t' = entries t"
  by (induction t rule: rotateRight.induct) (auto simp: Let_def)

lemma rotateLeft_entries:
  "rotateLeft t = Some t' \<Longrightarrow> entries t' = entries t"
  by (induction t rule: rotateLeft.induct) (auto simp: Let_def)

lemma fix_right_entries: "fix_right t = Some t' \<Longrightarrow> entries t' = entries t"
  by (cases t) auto

lemma fix_left_entries: "fix_left t = Some t' \<Longrightarrow> entries t' = entries t"
  by (cases t) auto

lemma relink_entries: "relink t = Some t' \<Longrightarrow> entries t' = entries t"
  by (cases t) auto

lemma rebalance_entries:
  "rebalance t = Some t' \<Longrightarrow> entries t' = entries t"
proof (cases t)
  case Null
  assume "rebalance t = Some t'"
  then show ?thesis using Null by auto
next
  case (Node a v l r p ht)
  assume "rebalance t = Some t'"
  then show ?thesis unfolding Node
    by (auto simp: Let_def split: if_splits option.splits bind_splits
        dest!: rotateRight_entries rotateLeft_entries fix_right_entries fix_left_entries)
qed


lemma rebalance_balanced:
  assumes "avl l" "avl r" "\<bar>height l - height r\<bar> \<le> 1"
  shows "rebalance (Node a v l r p ht) = Some (Node a v l r p (1 + max (height l) (height r)))"
  using assms by (auto simp: Let_def)

lemma rebalance_left_heavy:
  assumes "avl l" "avl r" "height l = height r + 2"
  shows "\<exists>t'. rebalance (Node a v l r p ht) = Some t' \<and> avl t' \<and> t' \<noteq> Null \<and>
           (height t' = height l \<or> height t' = 1 + height l)"
proof (cases l)
  case Null
  then show ?thesis using assms height_nonneg [of r] by simp
next
  case L: (Node la lv ll lr lp lh)
  show ?thesis
  proof (cases "bf l < 0")
    case False
    then show ?thesis using assms L
      by (auto simp: Let_def max_def split: if_splits)
  next
    case True
    then obtain ma mv ml mr mp mh where M: "lr = Node ma mv ml mr mp mh"
      using assms L height_nonneg [of ll] height_nonneg [of r]
      by (cases lr) (auto simp del: height_nonneg)
    show ?thesis using True assms L M
      by (auto simp: Let_def max_def split: if_splits)
  qed
qed

lemma rebalance_right_heavy:
  assumes "avl l" "avl r" "height r = height l + 2"
  shows "\<exists>t'. rebalance (Node a v l r p ht) = Some t' \<and> avl t' \<and> t' \<noteq> Null \<and>
           (height t' = height r \<or> height t' = 1 + height r)"
proof (cases r)
  case Null
  then show ?thesis using assms height_nonneg [of l] by simp
next
  case R: (Node ra rv rl rr rp rh)
  show ?thesis
  proof (cases "bf r > 0")
    case False
    then show ?thesis using assms R
      by (auto simp: Let_def max_def split: if_splits)
  next
    case True
    then obtain ma mv ml mr mp mh where M: "rl = Node ma mv ml mr mp mh"
      using assms R height_nonneg [of rr] height_nonneg [of l]
      by (cases rl) (auto simp del: height_nonneg)
    show ?thesis using True assms R M
      by (auto simp: Let_def max_def split: if_splits)
  qed
qed


lemma relink_props:
  "relink t = Some t' \<Longrightarrow>
     entries t' = entries t \<and> avl t' = avl t \<and> height t' = height t \<and>
     ptr_of t' = ptr_of t \<and> t' \<noteq> Null"
  by (cases t) auto

lemma relink_Some: "t \<noteq> Null \<Longrightarrow> \<exists>t'. relink t = Some t'"
  by (cases t) auto

lemma rotateRight_kids:
  assumes "rotateRight (Node a v l r p ht) = Some t'" "kids_ok l" "parents_ok (Some a) r"
  shows "kids_ok t'"
  using assms by (cases l) (auto simp: Let_def dest: parents_ok_kids)

lemma rotateLeft_kids:
  assumes "rotateLeft (Node a v l r p ht) = Some t'" "kids_ok r" "parents_ok (Some a) l"
  shows "kids_ok t'"
  using assms by (cases r) (auto simp: Let_def dest: parents_ok_kids)

lemma fix_right_kids: "fix_right t = Some t' \<Longrightarrow> kids_ok t \<Longrightarrow> kids_ok t'"
  by (cases t) (auto simp: parents_ok_kids)

lemma fix_left_kids: "fix_left t = Some t' \<Longrightarrow> kids_ok t \<Longrightarrow> kids_ok t'"
  by (cases t) (auto simp: parents_ok_kids)

lemma relink_kids: "relink t = Some t' \<Longrightarrow> kids_ok t \<Longrightarrow> kids_ok t'"
  by (cases t) (auto simp: parents_ok_kids)

lemma rebalance_kids:
  assumes "rebalance (Node a v l r p ht) = Some t'"
    and "parents_ok (Some a) l" "parents_ok (Some a) r"
  shows "kids_ok t'"
proof -
  let ?ht = "1 + max2 (h l) (h r)"
  consider (L) "h l - h r > 1" | (R) "\<not> h l - h r > 1" "h l - h r < - 1"
    | (B) "\<not> h l - h r > 1" "\<not> h l - h r < - 1" by linarith
  then show ?thesis
  proof cases
    case B
    then show ?thesis using assms by (auto simp: Let_def)
  next
    case L
    then obtain l' t1 where
      l': "(if bf l < 0 then map_option (set_parent (Some a)) (rotateLeft l) else Some l) = Some l'"
      and t1: "rotateRight (Node a v l' r p ?ht) = Some t1" and t': "fix_right t1 = Some t'"
      using assms(1) by (auto simp: Let_def split: option.splits bind_splits)
    have "kids_ok l'"
    proof (cases "bf l < 0")
      case False
      then show ?thesis using l' assms(2) by (auto simp: parents_ok_kids)
    next
      case True
      then obtain l0 where l0: "rotateLeft l = Some l0" "l' = set_parent (Some a) l0"
        using l' by auto
      then show ?thesis using assms(2)
        by (cases l rule: rotateLeft.cases) (auto simp: Let_def parents_ok_kids)
    qed
    then have "kids_ok t1" using rotateRight_kids [OF t1] assms(3) by simp
    then show ?thesis using fix_right_kids [OF t'] by simp
  next
    case R
    then obtain r' t1 where
      r': "(if bf r > 0 then map_option (set_parent (Some a)) (rotateRight r) else Some r) = Some r'"
      and t1: "rotateLeft (Node a v l r' p ?ht) = Some t1" and t': "fix_left t1 = Some t'"
      using assms(1) by (auto simp: Let_def split: option.splits bind_splits)
    have "kids_ok r'"
    proof (cases "bf r > 0")
      case False
      then show ?thesis using r' assms(3) by (auto simp: parents_ok_kids)
    next
      case True
      then obtain r0 where r0: "rotateRight r = Some r0" "r' = set_parent (Some a) r0"
        using r' by auto
      then show ?thesis using assms(3)
        by (cases r rule: rotateRight.cases) (auto simp: Let_def parents_ok_kids)
    qed
    then have "kids_ok t1" using rotateLeft_kids [OF t1] assms(2) by simp
    then show ?thesis using fix_left_kids [OF t'] by simp
  qed
qed

declare rebalance.simps [simp del]

lemma rebal_relink_avl:
  assumes "avl l" "avl r" "\<bar>height l - height r\<bar> \<le> 2"
  shows "\<exists>t'. Option.bind (rebalance (Node a v l r p ht)) relink = Some t' \<and> avl t' \<and>
           t' \<noteq> Null \<and>
           (\<bar>height l - height r\<bar> \<le> 1 \<longrightarrow> height t' = 1 + max (height l) (height r)) \<and>
           (\<bar>height l - height r\<bar> = 2 \<longrightarrow>
              height t' = max (height l) (height r) \<or>
              height t' = 1 + max (height l) (height r))"
proof -
  consider (B) "\<bar>height l - height r\<bar> \<le> 1" | (L) "height l = height r + 2"
    | (R) "height r = height l + 2" using assms(3) by linarith
  then show ?thesis
  proof cases
    case B
    have "rebalance (Node a v l r p ht) = Some (Node a v l r p (1 + max (height l) (height r)))"
      using rebalance_balanced [OF assms(1,2) B] .
    then show ?thesis using B assms by simp
  next
    case L
    obtain t1 where t1: "rebalance (Node a v l r p ht) = Some t1" "avl t1" "t1 \<noteq> Null"
      "height t1 = height l \<or> height t1 = 1 + height l"
      using rebalance_left_heavy [OF assms(1,2) L] by blast
    obtain t2 where t2: "relink t1 = Some t2" using relink_Some [OF t1(3)] by blast
    have "max (height l) (height r) = height l" using L by simp
    then show ?thesis using t1 t2 relink_props [OF t2] L by simp
  next
    case R
    obtain t1 where t1: "rebalance (Node a v l r p ht) = Some t1" "avl t1" "t1 \<noteq> Null"
      "height t1 = height r \<or> height t1 = 1 + height r"
      using rebalance_right_heavy [OF assms(1,2) R] by blast
    obtain t2 where t2: "relink t1 = Some t2" using relink_Some [OF t1(3)] by blast
    have "max (height l) (height r) = height r" using R by simp
    then show ?thesis using t1 t2 relink_props [OF t2] R by simp
  qed
qed

lemma rebal_relink_entries:
  "Option.bind (rebalance t) relink = Some t' \<Longrightarrow> entries t' = entries t"
proof -
  assume "Option.bind (rebalance t) relink = Some t'"
  then obtain x where "rebalance t = Some x" "relink x = Some t'"
    by (auto split: bind_splits)
  then show ?thesis using rebalance_entries [of t x] relink_props [of x t'] by simp
qed

lemma rebal_relink_kids:
  assumes "Option.bind (rebalance (Node a v l r p ht)) relink = Some t'"
    and "parents_ok (Some a) l" "parents_ok (Some a) r"
  shows "kids_ok t'"
proof -
  obtain x where x: "rebalance (Node a v l r p ht) = Some x" "relink x = Some t'"
    using assms(1) by (auto split: bind_splits)
  show ?thesis using relink_kids [OF x(2)] rebalance_kids [OF x(1) assms(2,3)] by simp
qed

lemma rebal_relink_id:
  assumes "avl (Node a v l r p ht)" "parents_ok p (Node a v l r p ht)"
  shows "Option.bind (rebalance (Node a v l r p ht)) relink = Some (Node a v l r p ht)"
proof -
  have "rebalance (Node a v l r p ht) = Some (Node a v l r p (1 + max (height l) (height r)))"
    using assms(1) by (intro rebalance_balanced) auto
  then show ?thesis using assms by simp
qed

subsection \<open>\<open>insertNode\<close>\<close>

lemma insertNode_avl:
  "avl t \<Longrightarrow>
   \<exists>t' b i c. insertNode cmp nn t par val cnt = Some (t', b, Some i, c) \<and> avl t' \<and>
      t' \<noteq> Null \<and> (height t' = height t \<or> height t' = height t + 1)"
proof (induction t arbitrary: par)
  case Null
  then show ?case by auto
next
  case (Node a v l r p ht)
  have al: "avl l" and ar: "avl r" and bal: "\<bar>height l - height r\<bar> \<le> 1"
    and ht: "ht = 1 + max (height l) (height r)" using Node.prems by auto
  consider (L) "cmp (fst val) (fst v)" | (R) "\<not> cmp (fst val) (fst v)" "cmp (fst v) (fst val)"
    | (E) "\<not> cmp (fst val) (fst v)" "\<not> cmp (fst v) (fst val)" by blast
  then show ?case
  proof cases
    case E
    then show ?thesis using Node.prems by auto
  next
    case L
    obtain l' b i c where l': "insertNode cmp nn l (Some a) val cnt = Some (l', b, Some i, c)"
      "avl l'" "height l' = height l \<or> height l' = height l + 1"
      using Node.IH(1) [OF al] by blast
    have d: "\<bar>height l' - height r\<bar> \<le> 2" using l'(3) bal by linarith
    obtain t' where t': "Option.bind (rebalance (Node a v l' r p ht)) relink = Some t'"
      "avl t'" "t' \<noteq> Null"
      "\<bar>height l' - height r\<bar> \<le> 1 \<longrightarrow> height t' = 1 + max (height l') (height r)"
      "\<bar>height l' - height r\<bar> = 2 \<longrightarrow> height t' = max (height l') (height r) \<or>
              height t' = 1 + max (height l') (height r)"
      using rebal_relink_avl [OF l'(2) ar d] by blast
    have "height t' = 1 + max (height l) (height r) \<or> height t' = 2 + max (height l) (height r)"
      using t'(4,5) l'(3) bal d by (cases "\<bar>height l' - height r\<bar> \<le> 1") linarith+
    then show ?thesis using L l'(1) t'(1,2,3) by auto
  next
    case R
    obtain r' b i c where r': "insertNode cmp nn r (Some a) val cnt = Some (r', b, Some i, c)"
      "avl r'" "height r' = height r \<or> height r' = height r + 1"
      using Node.IH(2) [OF ar] by blast
    have d: "\<bar>height l - height r'\<bar> \<le> 2" using r'(3) bal by linarith
    obtain t' where t': "Option.bind (rebalance (Node a v l r' p ht)) relink = Some t'"
      "avl t'" "t' \<noteq> Null"
      "\<bar>height l - height r'\<bar> \<le> 1 \<longrightarrow> height t' = 1 + max (height l) (height r')"
      "\<bar>height l - height r'\<bar> = 2 \<longrightarrow> height t' = max (height l) (height r') \<or>
              height t' = 1 + max (height l) (height r')"
      using rebal_relink_avl [OF al r'(2) d] by blast
    have "height t' = 1 + max (height l) (height r) \<or> height t' = 2 + max (height l) (height r)"
      using t'(4,5) r'(3) bal d by (cases "\<bar>height l - height r'\<bar> \<le> 1") linarith+
    then show ?thesis using R r'(1) t'(1,2,3) by auto
  qed
qed


lemma keys_entries: "keys t = map (fst \<circ> snd) (entries t)"
  by (induction t) (auto simp: keys_def)

lemma keys_Node [simp]: "keys (Node a v l r p ht) = keys l @ fst v # keys r"
  by (simp add: keys_def)

lemma keys_Null [simp]: "keys Null = []"
  by (simp add: keys_def)

lemma bst_Null [simp]: "bst cmp Null"
  by (simp add: bst_def)

lemma bst_Node:
  "bst cmp (Node a v l r p ht) =
     (bst cmp l \<and> bst cmp r \<and> (\<forall>x\<in>set (keys l). cmp x (fst v)) \<and>
      (\<forall>y\<in>set (keys r). cmp (fst v) y) \<and> (\<forall>x\<in>set (keys l). \<forall>y\<in>set (keys r). cmp x y))"
  by (auto simp: bst_def sorted_wrt_append)

lemma entries_eq_keys: "entries t' = entries t \<Longrightarrow> keys t' = keys t"
  by (simp add: keys_entries)

lemma entries_eq_bst: "entries t' = entries t \<Longrightarrow> bst cmp t' = bst cmp t"
  using entries_eq_keys [of t' t] by (simp add: bst_def)

lemma set_keys_entries: "set (keys t) = (fst \<circ> snd) ` set (entries t)"
  by (simp add: keys_entries)


lemma insertNode_Node_cases:
  assumes "insertNode cmp nn (Node a v l r p ht) par val cnt = Some (t', b, i, c)"
  obtains
    (L) l' t1 where "cmp (fst val) (fst v)"
      "insertNode cmp nn l (Some a) val cnt = Some (l', b, i, c)"
      "Option.bind (rebalance (Node a v l' r p ht)) relink = Some t1"
      "t' = set_parent par t1" "entries t' = entries l' @ (a, v) # entries r"
  | (R) r' t1 where "\<not> cmp (fst val) (fst v)" "cmp (fst v) (fst val)"
      "insertNode cmp nn r (Some a) val cnt = Some (r', b, i, c)"
      "Option.bind (rebalance (Node a v l r' p ht)) relink = Some t1"
      "t' = set_parent par t1" "entries t' = entries l @ (a, v) # entries r'"
  | (E) "\<not> cmp (fst val) (fst v)" "\<not> cmp (fst v) (fst val)"
      "t' = Node a v l r p ht" "\<not> b" "i = Some a" "c = cnt"
proof -
  consider (L) "cmp (fst val) (fst v)" | (R) "\<not> cmp (fst val) (fst v)" "cmp (fst v) (fst val)"
    | (E) "\<not> cmp (fst val) (fst v)" "\<not> cmp (fst v) (fst val)" by blast
  then show ?thesis
  proof cases
    case E
    then show ?thesis using assms that(3) by simp
  next
    case L
    then have "(case insertNode cmp nn l (Some a) val cnt of
           None \<Rightarrow> None
         | Some (l', inserted, ins, cnt') \<Rightarrow>
             map_option (\<lambda>res. (set_parent par res, inserted, ins, cnt'))
               (Option.bind (rebalance (Node a v l' r p ht)) relink)) = Some (t', b, i, c)"
      using assms by simp
    then obtain l' t1 where l': "insertNode cmp nn l (Some a) val cnt = Some (l', b, i, c)"
      and t1: "Option.bind (rebalance (Node a v l' r p ht)) relink = Some t1"
      and t': "t' = set_parent par t1"
      by (cases "insertNode cmp nn l (Some a) val cnt") auto
    have "entries t' = entries l' @ (a, v) # entries r"
      using rebal_relink_entries [OF t1] t' by simp
    then show ?thesis using that(1) L l' t1 t' by blast
  next
    case R
    then have "(case insertNode cmp nn r (Some a) val cnt of
           None \<Rightarrow> None
         | Some (r', inserted, ins, cnt') \<Rightarrow>
             map_option (\<lambda>res. (set_parent par res, inserted, ins, cnt'))
               (Option.bind (rebalance (Node a v l r' p ht)) relink)) = Some (t', b, i, c)"
      using assms by simp
    then obtain r' t1 where r': "insertNode cmp nn r (Some a) val cnt = Some (r', b, i, c)"
      and t1: "Option.bind (rebalance (Node a v l r' p ht)) relink = Some t1"
      and t': "t' = set_parent par t1"
      by (cases "insertNode cmp nn r (Some a) val cnt") auto
    have "entries t' = entries l @ (a, v) # entries r'"
      using rebal_relink_entries [OF t1] t' by simp
    then show ?thesis using that(2) R r' t1 t' by blast
  qed
qed

lemma insertNode_entries:
  "insertNode cmp nn t par val cnt = Some (t', b, i, c) \<Longrightarrow>
     mset (entries t') = mset (entries t) + (if b then {#(nn, val)#} else {#}) \<and>
     c = (if b then cnt + 1 else cnt) \<and> (b \<longrightarrow> i = Some nn)"
proof (induction t arbitrary: par t')
  case Null
  then show ?case by auto
next
  case (Node a v l r p ht)
  from Node.prems show ?case
  proof (cases rule: insertNode_Node_cases)
    case (L l' t1)
    show ?thesis using Node.IH(1) [OF L(2)] L(5) by simp
  next
    case (R r' t1)
    show ?thesis using Node.IH(2) [OF R(3)] R(6) by simp
  next
    case E
    then show ?thesis by simp
  qed
qed

lemma insertNode_found:
  "insertNode cmp nn t par val cnt = Some (t', False, i, c) \<Longrightarrow>
     \<exists>a' kv. i = Some a' \<and> (a', kv) \<in> set (entries t) \<and> equivalent cmp (fst kv) (fst val)"
proof (induction t arbitrary: par t')
  case Null
  then show ?case by auto
next
  case (Node a v l r p ht)
  from Node.prems show ?case
  proof (cases rule: insertNode_Node_cases)
    case (L l' t1)
    show ?thesis using Node.IH(1) [OF L(2)] by auto
  next
    case (R r' t1)
    show ?thesis using Node.IH(2) [OF R(3)] by auto
  next
    case E
    have "(a, v) \<in> set (entries (Node a v l r p ht))" by simp
    moreover have "equivalent cmp (fst v) (fst val)" using E by (simp add: equivalent_def)
    ultimately show ?thesis using E(5) by blast
  qed
qed

lemma insertNode_set_keys:
  assumes "insertNode cmp nn t par val cnt = Some (t', b, i, c)"
  shows "set (keys t') = set (keys t) \<union> (if b then {fst val} else {})"
proof -
  have "set_mset (mset (entries t')) =
        set_mset (mset (entries t) + (if b then {#(nn, val)#} else {#}))"
    using insertNode_entries [OF assms] by simp
  then have "set (entries t') = set (entries t) \<union> (if b then {(nn, val)} else {})"
    by (simp split: if_splits)
  then show ?thesis by (auto simp: set_keys_entries)
qed

lemma insertNode_flag:
  assumes "transp cmp"
  shows "bst cmp t \<Longrightarrow> insertNode cmp nn t par val cnt = Some (t', b, i, c) \<Longrightarrow>
     b = (\<forall>x\<in>set (keys t). \<not> equivalent cmp x (fst val))"
proof (induction t arbitrary: par t')
  case Null
  then show ?case by auto
next
  case (Node a v l r p ht)
  have tr: "\<And>x y z. cmp x y \<Longrightarrow> cmp y z \<Longrightarrow> cmp x z" using assms by (auto dest: transpD)
  have B: "bst cmp l" "bst cmp r" "\<forall>x\<in>set (keys l). cmp x (fst v)"
    "\<forall>y\<in>set (keys r). cmp (fst v) y"
    using Node.prems(1) by (auto simp: bst_Node)
  from Node.prems(2) show ?case
  proof (cases rule: insertNode_Node_cases)
    case (L l' t1)
    have "\<forall>y\<in>set (keys r). \<not> equivalent cmp y (fst val)"
      using B(4) L(1) tr by (auto simp: equivalent_def)
    moreover have "\<not> equivalent cmp (fst v) (fst val)" using L(1) by (simp add: equivalent_def)
    ultimately show ?thesis using Node.IH(1) [OF B(1) L(2)] by auto
  next
    case (R r' t1)
    have "\<forall>x\<in>set (keys l). \<not> equivalent cmp x (fst val)"
      using B(3) R(2) tr by (auto simp: equivalent_def)
    moreover have "\<not> equivalent cmp (fst v) (fst val)" using R(2) by (simp add: equivalent_def)
    ultimately show ?thesis using Node.IH(2) [OF B(2) R(3)] by auto
  next
    case E
    then show ?thesis by (auto simp: equivalent_def)
  qed
qed

lemma insertNode_bst:
  assumes "transp cmp"
  shows "bst cmp t \<Longrightarrow> insertNode cmp nn t par val cnt = Some (t', b, i, c) \<Longrightarrow> bst cmp t'"
proof (induction t arbitrary: par t')
  case Null
  then show ?case by (auto simp: bst_def keys_def)
next
  case (Node a v l r p ht)
  have tr: "\<And>x y z. cmp x y \<Longrightarrow> cmp y z \<Longrightarrow> cmp x z" using assms by (auto dest: transpD)
  have B: "bst cmp l" "bst cmp r" "\<forall>x\<in>set (keys l). cmp x (fst v)"
    "\<forall>y\<in>set (keys r). cmp (fst v) y" "\<forall>x\<in>set (keys l). \<forall>y\<in>set (keys r). cmp x y"
    using Node.prems(1) by (auto simp: bst_Node)
  from Node.prems(2) show ?case
  proof (cases rule: insertNode_Node_cases)
    case (L l' t1)
    have sk: "set (keys l') \<subseteq> set (keys l) \<union> {fst val}"
      using insertNode_set_keys [OF L(2)] by (auto split: if_splits)
    have 1: "\<forall>x\<in>set (keys l'). cmp x (fst v)" using sk B(3) L(1) by auto
    have 2: "\<forall>x\<in>set (keys l'). \<forall>y\<in>set (keys r). cmp x y"
    proof (intro ballI)
      fix x y assume "x \<in> set (keys l')" "y \<in> set (keys r)"
      then show "cmp x y" using sk B(4,5) L(1) tr by blast
    qed
    have "bst cmp (Node a v l' r p ht)"
      using Node.IH(1) [OF B(1) L(2)] B(2,4) 1 2 by (simp add: bst_Node)
    then show ?thesis using entries_eq_bst [of t' "Node a v l' r p ht" cmp] L(5) by simp
  next
    case (R r' t1)
    have sk: "set (keys r') \<subseteq> set (keys r) \<union> {fst val}"
      using insertNode_set_keys [OF R(3)] by (auto split: if_splits)
    have 1: "\<forall>y\<in>set (keys r'). cmp (fst v) y" using sk B(4) R(2) by auto
    have 2: "\<forall>x\<in>set (keys l). \<forall>y\<in>set (keys r'). cmp x y"
    proof (intro ballI)
      fix x y assume "x \<in> set (keys l)" "y \<in> set (keys r')"
      then show "cmp x y" using sk B(3,5) R(2) tr by blast
    qed
    have "bst cmp (Node a v l r' p ht)"
      using Node.IH(2) [OF B(2) R(3)] B(1,3) 1 2 by (simp add: bst_Node)
    then show ?thesis using entries_eq_bst [of t' "Node a v l r' p ht" cmp] R(6) by simp
  next
    case E
    then show ?thesis using Node.prems(1) by simp
  qed
qed

lemma insertNode_parents:
  "parents_ok par t \<Longrightarrow> insertNode cmp nn t par val cnt = Some (t', b, i, c) \<Longrightarrow>
     parents_ok par t'"
proof (induction t arbitrary: par t')
  case Null
  then show ?case by auto
next
  case (Node a v l r p ht)
  have P: "parents_ok (Some a) l" "parents_ok (Some a) r" using Node.prems(1) by auto
  from Node.prems(2) show ?case
  proof (cases rule: insertNode_Node_cases)
    case (L l' t1)
    show ?thesis using rebal_relink_kids [OF L(3) Node.IH(1) [OF P(1) L(2)] P(2)] L(4) by simp
  next
    case (R r' t1)
    show ?thesis using rebal_relink_kids [OF R(4) P(1) Node.IH(2) [OF P(2) R(3)]] R(5) by simp
  next
    case E
    then show ?thesis using Node.prems(1) by simp
  qed
qed

lemma insertNode_unchanged:
  "avl t \<Longrightarrow> parents_ok par t \<Longrightarrow>
   insertNode cmp nn t par val cnt = Some (t', False, i, c) \<Longrightarrow> t' = t"
proof (induction t arbitrary: par t')
  case Null
  then show ?case by auto
next
  case (Node a v l r p ht)
  have P: "parents_ok (Some a) l" "parents_ok (Some a) r" "p = par"
    using Node.prems(2) by auto
  have A: "avl l" "avl r" using Node.prems(1) by auto
  have id: "Option.bind (rebalance (Node a v l r p ht)) relink = Some (Node a v l r p ht)"
    using rebal_relink_id Node.prems(1,2) P(3) by blast
  from Node.prems(3) show ?case
  proof (cases rule: insertNode_Node_cases)
    case (L l' t1)
    have "l' = l" using Node.IH(1) [OF A(1) P(1) L(2)] .
    then show ?thesis using L(3,4) id P(3) by simp
  next
    case (R r' t1)
    have "r' = r" using Node.IH(2) [OF A(2) P(2) R(3)] .
    then show ?thesis using R(4,5) id P(3) by simp
  next
    case E
    then show ?thesis by simp
  qed
qed

subsection \<open>\<open>eraseByNode\<close>\<close>

lemma height_le_0 [simp]: "(height t \<le> 0) = (t = Null)"
proof -
  have "0 \<le> height t" by simp
  then have "(height t \<le> 0) = (height t = 0)" by linarith
  then show ?thesis by simp
qed

lemma eraseByNode_Node_cases:
  assumes "eraseByNode cmp (Node a v l r p ht) tg e cnt = Some (t', e', c', fr)"
  obtains
    (T1) "a = fst tg" "l = Null \<or> r = Null"
      "t' = set_parent p (if l \<noteq> Null then l else r)" "e'" "c' = cnt - 1" "fr = [a]"
  | (T2) sa tmp sl sr sp sh r' e2 where "a = fst tg" "l \<noteq> Null" "r \<noteq> Null"
      "minNode r = Node sa tmp sl sr sp sh"
      "eraseByNode cmp r (sa, fst tmp) False cnt = Some (r', e2, c', fr)"
      "Option.bind (rebalance (Node a tmp l (set_parent (Some a) r') p ht)) relink = Some t'"
      "e'" "entries t' = entries l @ (a, tmp) # entries r'"
  | (L) l' where "a \<noteq> fst tg" "cmp (snd tg) (fst v)"
      "eraseByNode cmp l tg e cnt = Some (l', e', c', fr)"
      "Option.bind (rebalance (Node a v (set_parent (Some a) l') r p ht)) relink = Some t'"
      "entries t' = entries l' @ (a, v) # entries r"
  | (R) r' where "a \<noteq> fst tg" "\<not> cmp (snd tg) (fst v)"
      "eraseByNode cmp r tg e cnt = Some (r', e', c', fr)"
      "Option.bind (rebalance (Node a v l (set_parent (Some a) r') p ht)) relink = Some t'"
      "entries t' = entries l @ (a, v) # entries r'"
proof -
  consider (T1) "a = fst tg" "l = Null \<or> r = Null"
    | (T2) "a = fst tg" "l \<noteq> Null" "r \<noteq> Null"
    | (L) "a \<noteq> fst tg" "cmp (snd tg) (fst v)"
    | (R) "a \<noteq> fst tg" "\<not> cmp (snd tg) (fst v)" by blast
  then show ?thesis
  proof cases
    case T1
    then show ?thesis using assms that(1) by auto
  next
    case T2
    then have *: "(case minNode r of
              Null \<Rightarrow> None
            | Node sa tmp sl sr sp sh \<Rightarrow>
                (case eraseByNode cmp r (sa, fst tmp) False cnt of
                   None \<Rightarrow> None
                 | Some (r', erased2, cnt', freed) \<Rightarrow>
                     map_option (\<lambda>res. (res, True, cnt', freed))
                       (Option.bind (rebalance (Node a tmp l (set_parent (Some a) r') p ht))
                          relink))) = Some (t', e', c', fr)"
      using assms T2(2,3) by (simp add: T2(1) [symmetric])
    then obtain sa tmp sl sr sp sh where s: "minNode r = Node sa tmp sl sr sp sh"
      by (cases "minNode r") auto
    then obtain r' e2 where r': "eraseByNode cmp r (sa, fst tmp) False cnt = Some (r', e2, c', fr)"
      and t': "Option.bind (rebalance (Node a tmp l (set_parent (Some a) r') p ht)) relink = Some t'"
      and e': "e'"
      using * by (cases "eraseByNode cmp r (sa, fst tmp) False cnt") auto
    have "entries t' = entries l @ (a, tmp) # entries r'"
      using rebal_relink_entries [OF t'] by simp
    then show ?thesis using that(2) T2 s r' t' e' by blast
  next
    case L
    then have "(case eraseByNode cmp l tg e cnt of
           None \<Rightarrow> None
         | Some (l', erased', cnt', freed) \<Rightarrow>
             map_option (\<lambda>res. (res, erased', cnt', freed))
               (Option.bind (rebalance (Node a v (set_parent (Some a) l') r p ht)) relink))
         = Some (t', e', c', fr)"
      using assms by simp
    then obtain l' where l': "eraseByNode cmp l tg e cnt = Some (l', e', c', fr)"
      and t': "Option.bind (rebalance (Node a v (set_parent (Some a) l') r p ht)) relink = Some t'"
      by (cases "eraseByNode cmp l tg e cnt") auto
    have "entries t' = entries l' @ (a, v) # entries r"
      using rebal_relink_entries [OF t'] by simp
    then show ?thesis using that(3) L l' t' by blast
  next
    case R
    then have "(case eraseByNode cmp r tg e cnt of
           None \<Rightarrow> None
         | Some (r', erased', cnt', freed) \<Rightarrow>
             map_option (\<lambda>res. (res, erased', cnt', freed))
               (Option.bind (rebalance (Node a v l (set_parent (Some a) r') p ht)) relink))
         = Some (t', e', c', fr)"
      using assms by simp
    then obtain r' where r': "eraseByNode cmp r tg e cnt = Some (r', e', c', fr)"
      and t': "Option.bind (rebalance (Node a v l (set_parent (Some a) r') p ht)) relink = Some t'"
      by (cases "eraseByNode cmp r tg e cnt") auto
    have "entries t' = entries l @ (a, v) # entries r'"
      using rebal_relink_entries [OF t'] by simp
    then show ?thesis using that(4) R r' t' by blast
  qed
qed

lemma minNode_Null [simp]: "(minNode t = Null) = (t = Null)"
  by (induction t) auto

lemma maxNode_Null [simp]: "(maxNode t = Null) = (t = Null)"
  by (induction t) auto

lemma eraseByNode_avl:
  "avl t \<Longrightarrow>
   \<exists>t' e' c' fr. eraseByNode cmp t tg e cnt = Some (t', e', c', fr) \<and> avl t' \<and>
      (height t = height t' \<or> height t = height t' + 1)"
proof (induction t arbitrary: tg e cnt)
  case Null
  then show ?case by auto
next
  case (Node a v l r p ht)
  have al: "avl l" and ar: "avl r" and bal: "\<bar>height l - height r\<bar> \<le> 1"
    and ht: "ht = 1 + max (height l) (height r)" using Node.prems by auto
  consider (T1) "a = fst tg" "l = Null \<or> r = Null"
    | (T2) "a = fst tg" "l \<noteq> Null" "r \<noteq> Null"
    | (L) "a \<noteq> fst tg" "cmp (snd tg) (fst v)"
    | (R) "a \<noteq> fst tg" "\<not> cmp (snd tg) (fst v)" by blast
  then show ?case
  proof cases
    case T1
    have "avl (set_parent p (if l \<noteq> Null then l else r))" using al ar by simp
    moreover have "height (Node a v l r p ht) = height (set_parent p (if l \<noteq> Null then l else r)) + 1"
      using T1(2) bal by (auto simp: max_def)
    ultimately show ?thesis using T1 by auto
  next
    case T2
    obtain sa tmp sl sr sp sh where s: "minNode r = Node sa tmp sl sr sp sh"
      using T2(3) by (cases "minNode r") auto
    obtain r' e2 c' fr where r': "eraseByNode cmp r (sa, fst tmp) False cnt = Some (r', e2, c', fr)"
      "avl r'" "height r = height r' \<or> height r = height r' + 1"
      using Node.IH(2) [OF ar] by blast
    let ?r = "set_parent (Some a) r'"
    have d: "\<bar>height l - height ?r\<bar> \<le> 2" using r'(3) bal by auto
    have ar': "avl ?r" using r'(2) by simp
    obtain t' where t': "Option.bind (rebalance (Node a tmp l ?r p ht)) relink = Some t'"
      "avl t'"
      "\<bar>height l - height ?r\<bar> \<le> 1 \<longrightarrow> height t' = 1 + max (height l) (height ?r)"
      "\<bar>height l - height ?r\<bar> = 2 \<longrightarrow> height t' = max (height l) (height ?r) \<or>
              height t' = 1 + max (height l) (height ?r)"
      using rebal_relink_avl [OF al ar' d] by blast
    have "height t' = 1 + max (height l) (height r) \<or> height t' = max (height l) (height r)"
      using t'(3,4) r'(3) bal d by (cases "\<bar>height l - height ?r\<bar> \<le> 1") (simp; linarith)+
    then have hh: "height (Node a v l r p ht) = height t' \<or> height (Node a v l r p ht) = height t' + 1"
      by auto
    have "eraseByNode cmp (Node a v l r p ht) tg e cnt = Some (t', True, c', fr)"
      using T2 s r'(1) t'(1) by simp
    then show ?thesis using t'(2) hh by blast
  next
    case L
    obtain l' e' c' fr where l': "eraseByNode cmp l tg e cnt = Some (l', e', c', fr)"
      "avl l'" "height l = height l' \<or> height l = height l' + 1"
      using Node.IH(1) [OF al] by blast
    let ?l = "set_parent (Some a) l'"
    have d: "\<bar>height ?l - height r\<bar> \<le> 2" using l'(3) bal by auto
    have al': "avl ?l" using l'(2) by simp
    obtain t' where t': "Option.bind (rebalance (Node a v ?l r p ht)) relink = Some t'"
      "avl t'"
      "\<bar>height ?l - height r\<bar> \<le> 1 \<longrightarrow> height t' = 1 + max (height ?l) (height r)"
      "\<bar>height ?l - height r\<bar> = 2 \<longrightarrow> height t' = max (height ?l) (height r) \<or>
              height t' = 1 + max (height ?l) (height r)"
      using rebal_relink_avl [OF al' ar d] by blast
    have "height t' = 1 + max (height l) (height r) \<or> height t' = max (height l) (height r)"
      using t'(3,4) l'(3) bal d by (cases "\<bar>height ?l - height r\<bar> \<le> 1") (simp; linarith)+
    then have hh: "height (Node a v l r p ht) = height t' \<or> height (Node a v l r p ht) = height t' + 1"
      by auto
    have "eraseByNode cmp (Node a v l r p ht) tg e cnt = Some (t', e', c', fr)"
      using L l'(1) t'(1) by simp
    then show ?thesis using t'(2) hh by blast
  next
    case R
    obtain r' e' c' fr where r': "eraseByNode cmp r tg e cnt = Some (r', e', c', fr)"
      "avl r'" "height r = height r' \<or> height r = height r' + 1"
      using Node.IH(2) [OF ar] by blast
    let ?r = "set_parent (Some a) r'"
    have d: "\<bar>height l - height ?r\<bar> \<le> 2" using r'(3) bal by auto
    have ar': "avl ?r" using r'(2) by simp
    obtain t' where t': "Option.bind (rebalance (Node a v l ?r p ht)) relink = Some t'"
      "avl t'"
      "\<bar>height l - height ?r\<bar> \<le> 1 \<longrightarrow> height t' = 1 + max (height l) (height ?r)"
      "\<bar>height l - height ?r\<bar> = 2 \<longrightarrow> height t' = max (height l) (height ?r) \<or>
              height t' = 1 + max (height l) (height ?r)"
      using rebal_relink_avl [OF al ar' d] by blast
    have "height t' = 1 + max (height l) (height r) \<or> height t' = max (height l) (height r)"
      using t'(3,4) r'(3) bal d by (cases "\<bar>height l - height ?r\<bar> \<le> 1") (simp; linarith)+
    then have hh: "height (Node a v l r p ht) = height t' \<or> height (Node a v l r p ht) = height t' + 1"
      by auto
    have "eraseByNode cmp (Node a v l r p ht) tg e cnt = Some (t', e', c', fr)"
      using R r'(1) t'(1) by simp
    then show ?thesis using t'(2) hh by blast
  qed
qed

lemma eraseByNode_kids:
  "kids_ok t \<Longrightarrow> eraseByNode cmp t tg e cnt = Some (t', e', c', fr) \<Longrightarrow> kids_ok t'"
proof (induction t arbitrary: tg e cnt t' e' c' fr)
  case Null
  then show ?case by auto
next
  case (Node a v l r p ht)
  have P: "parents_ok (Some a) l" "parents_ok (Some a) r" using Node.prems(1) by auto
  then have K: "kids_ok l" "kids_ok r" by (auto dest: parents_ok_kids)
  from Node.prems(2) show ?case
  proof (cases rule: eraseByNode_Node_cases)
    case T1
    then show ?thesis using K by auto
  next
    case (T2 sa tmp sl sr sp sh r' e2)
    have "parents_ok (Some a) (set_parent (Some a) r')" using Node.IH(2) [OF K(2) T2(5)] by simp
    then show ?thesis using rebal_relink_kids [OF T2(6) P(1)] by simp
  next
    case (L l')
    have "parents_ok (Some a) (set_parent (Some a) l')" using Node.IH(1) [OF K(1) L(3)] by simp
    then show ?thesis using rebal_relink_kids [OF L(4) _ P(2)] by simp
  next
    case (R r')
    have "parents_ok (Some a) (set_parent (Some a) r')" using Node.IH(2) [OF K(2) R(3)] by simp
    then show ?thesis using rebal_relink_kids [OF R(4) P(1)] by simp
  qed
qed

lemma set_addrs_entries: "set (addrs t) = fst ` set (entries t)"
  by (metis map_fst_entries set_map)

lemma node_at_Null_iff [simp]: "(node_at t x = Null) = (x \<notin> set (addrs t))"
  by (induction t) (auto split: node.splits)

lemma node_at_ptr: "node_at t x = Node a v l r p ht \<Longrightarrow> a = x"
  by (induction t) (auto split: node.splits if_splits)

lemma node_at_left:
  "x \<in> set (addrs l) \<Longrightarrow> a \<noteq> x \<Longrightarrow> node_at (Node a v l r p ht) x = node_at l x"
  by (cases "node_at l x") auto

lemma node_at_right:
  "x \<notin> set (addrs l) \<Longrightarrow> a \<noteq> x \<Longrightarrow> node_at (Node a v l r p ht) x = node_at r x"
proof -
  assume a: "x \<notin> set (addrs l)" "a \<noteq> x"
  then have n: "node_at l x = Null" by simp
  show ?thesis using a(2) by (simp add: n)
qed

lemma node_at_entries:
  "distinct (addrs t) \<Longrightarrow> (x, v) \<in> set (entries t) \<Longrightarrow>
     \<exists>l r p ht. node_at t x = Node x v l r p ht"
proof (induction t)
  case Null
  then show ?case by simp
next
  case (Node a w l r q g)
  have D: "distinct (addrs l)" "distinct (addrs r)" "a \<notin> set (addrs l)" "a \<notin> set (addrs r)"
    "set (addrs l) \<inter> set (addrs r) = {}" using Node.prems(1) by auto
  consider (root) "x = a" | (left) "x \<noteq> a" "(x, v) \<in> set (entries l)"
    | (right) "x \<noteq> a" "(x, v) \<in> set (entries r)" using Node.prems(2) by auto
  then show ?case
  proof cases
    case root
    then have "(a, v) \<notin> set (entries l)" "(a, v) \<notin> set (entries r)"
      using D(3,4) by (force simp: set_addrs_entries)+
    then show ?thesis using Node.prems(2) root by auto
  next
    case left
    then have "x \<in> set (addrs l)" by (force simp: set_addrs_entries)
    then show ?thesis using Node.IH(1) [OF D(1) left(2)] left(1) node_at_left [of x l a] by auto
  next
    case right
    then have "x \<in> set (addrs r)" by (force simp: set_addrs_entries)
    then have "x \<notin> set (addrs l)" using D(5) by auto
    then show ?thesis using Node.IH(2) [OF D(2) right(2)] right(1) node_at_right [of x l a] by auto
  qed
qed

lemma node_at_in_entries:
  "node_at t x = Node a v l r p ht \<Longrightarrow> (x, v) \<in> set (entries t)"
  by (induction t) (auto split: node.splits if_splits)

lemma minNode_entries:
  "t \<noteq> Null \<Longrightarrow> \<exists>sa sv sr sp sh rest. minNode t = Node sa sv Null sr sp sh \<and>
      entries t = (sa, sv) # rest"
  by (induction t) auto

lemma maxNode_entries:
  "t \<noteq> Null \<Longrightarrow> \<exists>sa sv sl sp sh rest. maxNode t = Node sa sv sl Null sp sh \<and>
      entries t = rest @ [(sa, sv)]"
  by (induction t) auto

lemma node_at_minNode:
  "distinct (addrs t) \<Longrightarrow> minNode t = Node sa sv sl sr sp sh \<Longrightarrow> node_at t sa = minNode t"
proof (induction t)
  case Null
  then show ?case by simp
next
  case (Node a w l r q g)
  show ?case
  proof (cases "l = Null")
    case True
    then show ?thesis using Node.prems by auto
  next
    case False
    then have m: "minNode l = Node sa sv sl sr sp sh" using Node.prems(2) by simp
    have "(sa, sv) \<in> set (entries l)" using minNode_entries [OF False] m by auto
    then have "sa \<in> set (addrs l)" by (force simp: set_addrs_entries)
    moreover then have "a \<noteq> sa" using Node.prems(1) by auto
    ultimately have "node_at (Node a w l r q g) sa = node_at l sa" by (rule node_at_left)
    then show ?thesis using Node.IH(1) [OF _ m] Node.prems(1) False by simp
  qed
qed

lemma freed_by_erase_in:
  "freed_by_erase t x = Node sa sv sl sr sp sh \<Longrightarrow> (sa, sv) \<in> set (entries t)"
proof (induction t arbitrary: x)
  case Null
  then show ?case by (simp add: freed_by_erase_def)
next
  case (Node a w l r q g)
  show ?case
  proof (cases "a = x")
    case True
    then show ?thesis using Node.prems minNode_entries [of r]
      by (auto simp: freed_by_erase_def split: if_splits)
  next
    case False
    show ?thesis
    proof (cases "x \<in> set (addrs l)")
      case True
      then have "freed_by_erase (Node a w l r q g) x = freed_by_erase l x"
        using node_at_left [OF True False] by (simp add: freed_by_erase_def)
      then show ?thesis using Node.IH(1) [of x] Node.prems by simp
    next
      case nl: False
      then have "freed_by_erase (Node a w l r q g) x = freed_by_erase r x"
        using node_at_right [OF nl False] by (simp add: freed_by_erase_def)
      then show ?thesis using Node.IH(2) [of x] Node.prems by simp
    qed
  qed
qed

lemma filter_addr_id: "a \<notin> fst ` set xs \<Longrightarrow> filter (\<lambda>x. fst x \<noteq> a) xs = xs"
  by (induction xs) auto

lemma map_retarget_id:
  "a \<notin> fst ` set xs \<Longrightarrow> map (\<lambda>(b, v). if b = a then (b, w) else (b, v)) xs = xs"
  by (induction xs) auto

lemma freed_by_erase_left:
  "x \<in> set (addrs l) \<Longrightarrow> a \<noteq> x \<Longrightarrow>
     freed_by_erase (Node a v l r p ht) x = freed_by_erase l x"
  using node_at_left [of x l a v r p ht] by (simp add: freed_by_erase_def)

lemma freed_by_erase_right:
  "x \<notin> set (addrs l) \<Longrightarrow> a \<noteq> x \<Longrightarrow>
     freed_by_erase (Node a v l r p ht) x = freed_by_erase r x"
  using node_at_right [of x l a v r p ht] by (simp add: freed_by_erase_def)

lemma entries_in_keys: "(x, v) \<in> set (entries t) \<Longrightarrow> fst v \<in> set (keys t)"
  by (force simp: set_keys_entries)

lemma entries_in_addrs: "(x, v) \<in> set (entries t) \<Longrightarrow> x \<in> set (addrs t)"
  by (force simp: set_addrs_entries)

lemma erase_formula_left:
  assumes "ta \<notin> set (addrs r)" "sa \<notin> set (addrs r)" "a \<noteq> ta" "a \<noteq> sa"
  shows "map (\<lambda>(b, v). if b = ta then (b, sv) else (b, v))
           (filter (\<lambda>x. fst x \<noteq> sa) (entries l @ (a, v) # entries r)) =
         map (\<lambda>(b, v). if b = ta then (b, sv) else (b, v))
           (filter (\<lambda>x. fst x \<noteq> sa) (entries l)) @ (a, v) # entries r"
    and "map snd (filter (\<lambda>x. fst x \<noteq> ta) (entries l @ (a, v) # entries r)) =
         map snd (filter (\<lambda>x. fst x \<noteq> ta) (entries l)) @ v # inorder r"
  using assms filter_addr_id [of sa "entries r"] filter_addr_id [of ta "entries r"]
    map_retarget_id [of ta "entries r" sv]
  by (simp_all add: set_addrs_entries)

lemma erase_formula_right:
  assumes "ta \<notin> set (addrs l)" "sa \<notin> set (addrs l)" "a \<noteq> ta" "a \<noteq> sa"
  shows "map (\<lambda>(b, v). if b = ta then (b, sv) else (b, v))
           (filter (\<lambda>x. fst x \<noteq> sa) (entries l @ (a, v) # entries r)) =
         entries l @ (a, v) # map (\<lambda>(b, v). if b = ta then (b, sv) else (b, v))
           (filter (\<lambda>x. fst x \<noteq> sa) (entries r))"
    and "map snd (filter (\<lambda>x. fst x \<noteq> ta) (entries l @ (a, v) # entries r)) =
         inorder l @ v # map snd (filter (\<lambda>x. fst x \<noteq> ta) (entries r))"
  using assms filter_addr_id [of sa "entries l"] filter_addr_id [of ta "entries l"]
    map_retarget_id [of ta "entries l" sv]
  by (simp_all add: set_addrs_entries)

lemma eraseByNode_content:
  assumes irrefl: "\<forall>x. \<not> cmp x x" and transitive: "transp cmp"
  shows "bst cmp t \<Longrightarrow> distinct (addrs t) \<Longrightarrow> (ta, tv) \<in> set (entries t) \<Longrightarrow>
    eraseByNode cmp t (ta, fst tv) e cnt = Some (t', e', c', fr) \<Longrightarrow>
    freed_by_erase t ta = Node sa sv sl sr sp sh \<Longrightarrow>
    e' \<and> c' = cnt - 1 \<and> fr = [sa] \<and>
    entries t' = map (\<lambda>(b, v). if b = ta then (b, sv) else (b, v))
                   (filter (\<lambda>x. fst x \<noteq> sa) (entries t)) \<and>
    inorder t' = map snd (filter (\<lambda>x. fst x \<noteq> ta) (entries t))"
proof (induction t arbitrary: ta tv e cnt t' e' c' fr sa sv sl sr sp sh)
  case Null
  then show ?case by simp
next
  case (Node a v l r p ht)
  have irr: "\<And>x. \<not> cmp x x" using irrefl by simp
  have tr: "\<And>x y z. cmp x y \<Longrightarrow> cmp y z \<Longrightarrow> cmp x z" using transitive by (auto dest: transpD)
  have D: "distinct (addrs l)" "distinct (addrs r)" "a \<notin> set (addrs l)" "a \<notin> set (addrs r)"
    "set (addrs l) \<inter> set (addrs r) = {}" using Node.prems(2) by auto
  have B: "bst cmp l" "bst cmp r" "\<forall>x\<in>set (keys l). cmp x (fst v)"
    "\<forall>y\<in>set (keys r). cmp (fst v) y"
    using Node.prems(1) by (auto simp: bst_Node)
  have al: "a \<notin> fst ` set (entries l)" and ar: "a \<notin> fst ` set (entries r)"
    using D(3,4) by (simp_all add: set_addrs_entries)
  from Node.prems(4) show ?case
  proof (cases rule: eraseByNode_Node_cases)
    case T1
    then have ata: "a = ta" by simp
    have "freed_by_erase (Node a v l r p ht) ta = Node a v l r p ht"
      using T1(2) ata by (auto simp: freed_by_erase_def)
    then have s: "sa = a" "sv = v" using Node.prems(5) by auto
    have e: "entries t' = entries l @ entries r" using T1(2,3) by auto
    have F: "filter (\<lambda>x. fst x \<noteq> a) (entries (Node a v l r p ht)) = entries l @ entries r"
      using filter_addr_id [OF al] filter_addr_id [OF ar] by simp
    have M: "map (\<lambda>(b, w). if b = a then (b, v) else (b, w)) (entries l @ entries r)
        = entries l @ entries r"
      using map_retarget_id [OF al] map_retarget_id [OF ar] by simp
    have i: "entries t' = map (\<lambda>(b, v). if b = ta then (b, sv) else (b, v))
                   (filter (\<lambda>x. fst x \<noteq> sa) (entries (Node a v l r p ht)))"
      by (simp only: s ata [symmetric] F M e)
    have "inorder t' = map snd (entries l @ entries r)" using e by (metis map_snd_entries)
    then have ii: "inorder t' = map snd (filter (\<lambda>x. fst x \<noteq> ta) (entries (Node a v l r p ht)))"
      by (simp only: ata [symmetric] F)
    show ?thesis using T1(4,5,6) s(1) i ii by blast
  next
    case (T2 sa' tmp sl' sr' sp' sh' r' e2)
    then have ata: "a = ta" by simp
    obtain rest sr2 sp2 sh2 where m: "minNode r = Node sa' tmp Null sr2 sp2 sh2"
      "entries r = (sa', tmp) # rest"
      using minNode_entries [OF T2(3)] T2(4) by auto
    have "freed_by_erase (Node a v l r p ht) ta = minNode r"
      using T2(2,3) ata by (auto simp: freed_by_erase_def)
    then have s: "sa = sa'" "sv = tmp" using Node.prems(5) T2(4) by auto
    have in_r: "(sa', tmp) \<in> set (entries r)" using m(2) by simp
    have "node_at r sa' = minNode r" using node_at_minNode [OF D(2) T2(4)] .
    then have fr: "freed_by_erase r sa' = Node sa' tmp Null sr2 sp2 sh2"
      using m(1) by (simp add: freed_by_erase_def)
    note IH = Node.IH(2) [OF B(2) D(2) in_r T2(5) fr]
    have nr: "sa' \<notin> fst ` set rest" using D(2) m(2)
      by (metis distinct.simps(2) fst_conv list.simps(9) list.set_map map_fst_entries)
    have r': "entries r' = rest"
      using IH m(2) filter_addr_id [OF nr] map_retarget_id [OF nr] by simp
    have ne: "a \<noteq> sa'" using D(4) in_r by (auto dest: entries_in_addrs)
    have sal: "sa' \<notin> fst ` set (entries l)"
      using D(5) in_r by (auto simp: set_addrs_entries [symmetric] dest: entries_in_addrs)
    have arest: "a \<notin> fst ` set rest" using ar m(2) by auto
    have E: "entries (Node a v l r p ht) = entries l @ (a, v) # (sa', tmp) # rest"
      using m(2) by simp
    have 1: "filter (\<lambda>x. fst x \<noteq> sa') (entries l @ (a, v) # (sa', tmp) # rest)
       = entries l @ (a, v) # rest"
      using filter_addr_id [OF sal] filter_addr_id [OF nr] ne by simp
    have 2: "map (\<lambda>(b, w). if b = a then (b, tmp) else (b, w)) (entries l @ (a, v) # rest)
       = entries l @ (a, tmp) # rest"
      using map_retarget_id [OF al] map_retarget_id [OF arest] by simp
    have 3: "filter (\<lambda>x. fst x \<noteq> a) (entries l @ (a, v) # (sa', tmp) # rest)
       = entries l @ (sa', tmp) # rest"
      using filter_addr_id [OF al] filter_addr_id [OF arest] ne by simp
    have e: "entries t' = entries l @ (a, tmp) # rest" using T2(8) r' by simp
    have i: "entries t' = map (\<lambda>(b, v). if b = ta then (b, sv) else (b, v))
                   (filter (\<lambda>x. fst x \<noteq> sa) (entries (Node a v l r p ht)))"
      by (simp only: s ata [symmetric] E 1 2 e)
    have "inorder t' = map snd (entries l @ (a, tmp) # rest)" using e by (metis map_snd_entries)
    then have "inorder t' = map snd (entries l @ (sa', tmp) # rest)" by simp
    then have ii: "inorder t' = map snd (filter (\<lambda>x. fst x \<noteq> ta) (entries (Node a v l r p ht)))"
      by (simp only: ata [symmetric] E 3)
    have "c' = cnt - 1" "fr = [sa]" using IH s(1) by simp_all
    then show ?thesis using T2(7) i ii by blast
  next
    case (L l')
    have ne: "a \<noteq> ta" using L(1) by simp
    have c: "cmp (fst tv) (fst v)" using L(2) by simp
    have "(ta, tv) \<notin> set (entries r)"
    proof
      assume "(ta, tv) \<in> set (entries r)"
      then have "cmp (fst v) (fst tv)" using B(4) by (auto dest: entries_in_keys)
      then show False using c tr irr by blast
    qed
    then have in_l: "(ta, tv) \<in> set (entries l)" using Node.prems(3) ne by auto
    then have tal: "ta \<in> set (addrs l)" by (rule entries_in_addrs)
    have f: "freed_by_erase l ta = Node sa sv sl sr sp sh"
      using freed_by_erase_left [OF tal ne] Node.prems(5) by simp
    have sal: "sa \<in> set (addrs l)" using freed_by_erase_in [OF f] by (rule entries_in_addrs)
    note IH = Node.IH(1) [OF B(1) D(1) in_l L(3) f]
    have 1: "ta \<notin> set (addrs r)" "sa \<notin> set (addrs r)" "a \<noteq> sa"
      using tal sal D(3,5) by auto
    have i: "entries t' = map (\<lambda>(b, v). if b = ta then (b, sv) else (b, v))
                   (filter (\<lambda>x. fst x \<noteq> sa) (entries (Node a v l r p ht)))"
      using IH L(5) erase_formula_left(1) [OF 1(1,2) ne 1(3), of sv l v]
      by (simp only: entries.simps)
    have "inorder t' = map snd (entries l' @ (a, v) # entries r)"
      using L(5) by (metis map_snd_entries)
    then have "inorder t' = inorder l' @ v # inorder r" by simp
    then have ii: "inorder t' = map snd (filter (\<lambda>x. fst x \<noteq> ta) (entries (Node a v l r p ht)))"
      using IH erase_formula_left(2) [OF 1(1,2) ne 1(3), of l v]
      by (simp only: entries.simps)
    show ?thesis using IH i ii by blast
  next
    case (R r')
    have ne: "a \<noteq> ta" using R(1) by simp
    have c: "\<not> cmp (fst tv) (fst v)" using R(2) by simp
    have "(ta, tv) \<notin> set (entries l)"
    proof
      assume "(ta, tv) \<in> set (entries l)"
      then have "cmp (fst tv) (fst v)" using B(3) by (auto dest: entries_in_keys)
      then show False using c by blast
    qed
    then have in_r: "(ta, tv) \<in> set (entries r)" using Node.prems(3) ne by auto
    then have tar: "ta \<in> set (addrs r)" by (rule entries_in_addrs)
    then have tal: "ta \<notin> set (addrs l)" using D(5) by auto
    have f: "freed_by_erase r ta = Node sa sv sl sr sp sh"
      using freed_by_erase_right [OF tal ne] Node.prems(5) by simp
    have sar: "sa \<in> set (addrs r)" using freed_by_erase_in [OF f] by (rule entries_in_addrs)
    note IH = Node.IH(2) [OF B(2) D(2) in_r R(3) f]
    have 1: "sa \<notin> set (addrs l)" "a \<noteq> sa"
      using sar D(4,5) by auto
    have i: "entries t' = map (\<lambda>(b, v). if b = ta then (b, sv) else (b, v))
                   (filter (\<lambda>x. fst x \<noteq> sa) (entries (Node a v l r p ht)))"
      using IH R(5) erase_formula_right(1) [OF tal 1(1) ne 1(2), of sv v r]
      by (simp only: entries.simps)
    have "inorder t' = map snd (entries l @ (a, v) # entries r')"
      using R(5) by (metis map_snd_entries)
    then have "inorder t' = inorder l @ v # inorder r'" by simp
    then have ii: "inorder t' = map snd (filter (\<lambda>x. fst x \<noteq> ta) (entries (Node a v l r p ht)))"
      using IH erase_formula_right(2) [OF tal 1(1) ne 1(2), of v r]
      by (simp only: entries.simps)
    show ?thesis using IH i ii by blast
  qed
qed

subsection \<open>The comparator and \<open>findNode\<close>\<close>

lemma swo_irrefl: "strict_weak_order cmp \<Longrightarrow> \<not> cmp x x"
  by (simp add: strict_weak_order_def)

lemma swo_trans: "strict_weak_order cmp \<Longrightarrow> cmp x y \<Longrightarrow> cmp y z \<Longrightarrow> cmp x z"
  unfolding strict_weak_order_def by blast

lemma swo_transp: "strict_weak_order cmp \<Longrightarrow> transp cmp"
  by (rule transpI) (rule swo_trans)

lemma swo_equiv_trans:
  "strict_weak_order cmp \<Longrightarrow> equivalent cmp x y \<Longrightarrow> equivalent cmp y z \<Longrightarrow> equivalent cmp x z"
  unfolding strict_weak_order_def by blast

lemma equiv_sym: "equivalent cmp x y \<Longrightarrow> equivalent cmp y x"
  by (simp add: equivalent_def)

lemma findNode_entry:
  "findNode cmp t k = Node a v l r p ht \<Longrightarrow> (a, v) \<in> set (entries t) \<and> equivalent cmp (fst v) k"
  by (induction t) (auto simp: equivalent_def split: if_splits)

lemma findNode_Null_iff:
  assumes "strict_weak_order cmp"
  shows "bst cmp t \<Longrightarrow> (findNode cmp t k = Null) = (\<forall>x\<in>set (keys t). \<not> equivalent cmp x k)"
proof (induction t)
  case Null
  then show ?case by simp
next
  case (Node a v l r p ht)
  have B: "bst cmp l" "bst cmp r" "\<forall>x\<in>set (keys l). cmp x (fst v)"
    "\<forall>y\<in>set (keys r). cmp (fst v) y"
    using Node.prems(1) by (auto simp: bst_Node)
  consider (L) "cmp k (fst v)" | (R) "\<not> cmp k (fst v)" "cmp (fst v) k"
    | (E) "\<not> cmp k (fst v)" "\<not> cmp (fst v) k" by blast
  then show ?case
  proof cases
    case L
    have "\<forall>y\<in>set (keys r). \<not> equivalent cmp y k"
      using B(4) L swo_trans [OF assms] by (auto simp: equivalent_def)
    moreover have "\<not> equivalent cmp (fst v) k" using L by (simp add: equivalent_def)
    ultimately show ?thesis using Node.IH(1) [OF B(1)] L by auto
  next
    case R
    have "\<forall>x\<in>set (keys l). \<not> equivalent cmp x k"
      using B(3) R(2) swo_trans [OF assms] by (auto simp: equivalent_def)
    moreover have "\<not> equivalent cmp (fst v) k" using R by (simp add: equivalent_def)
    ultimately show ?thesis using Node.IH(2) [OF B(2)] R by auto
  next
    case E
    then show ?thesis by (auto simp: equivalent_def)
  qed
qed

lemma findNode_unique:
  assumes "strict_weak_order cmp"
  shows "bst cmp t \<Longrightarrow> (a, v) \<in> set (entries t) \<Longrightarrow> equivalent cmp (fst v) k \<Longrightarrow>
     \<exists>l r p ht. findNode cmp t k = Node a v l r p ht"
proof (induction t)
  case Null
  then show ?case by simp
next
  case (Node b w l r q g)
  have B: "bst cmp l" "bst cmp r" "\<forall>x\<in>set (keys l). cmp x (fst w)"
    "\<forall>y\<in>set (keys r). cmp (fst w) y"
    using Node.prems(1) by (auto simp: bst_Node)
  note tr = swo_trans [OF assms]
  have eqv: "\<not> cmp (fst v) k" "\<not> cmp k (fst v)" using Node.prems(3) by (auto simp: equivalent_def)
  consider (L) "cmp k (fst w)" | (R) "\<not> cmp k (fst w)" "cmp (fst w) k"
    | (E) "\<not> cmp k (fst w)" "\<not> cmp (fst w) k" by blast
  then show ?case
  proof cases
    case L
    have "(a, v) \<notin> set (entries r)"
    proof
      assume "(a, v) \<in> set (entries r)"
      then have "cmp (fst w) (fst v)" using B(4) by (auto dest: entries_in_keys)
      then show False using L tr eqv by blast
    qed
    moreover have "(a, v) \<noteq> (b, w)" using L eqv by auto
    ultimately have "(a, v) \<in> set (entries l)" using Node.prems(2) by auto
    then show ?thesis using Node.IH(1) [OF B(1) _ Node.prems(3)] L by simp
  next
    case R
    have "(a, v) \<notin> set (entries l)"
    proof
      assume "(a, v) \<in> set (entries l)"
      then have "cmp (fst v) (fst w)" using B(3) by (auto dest: entries_in_keys)
      then show False using R tr eqv by blast
    qed
    moreover have "(a, v) \<noteq> (b, w)" using R eqv by auto
    ultimately have "(a, v) \<in> set (entries r)" using Node.prems(2) by auto
    then show ?thesis using Node.IH(2) [OF B(2) _ Node.prems(3)] R by simp
  next
    case E
    then have "equivalent cmp k (fst w)" by (simp add: equivalent_def)
    then have e: "equivalent cmp (fst v) (fst w)"
      using swo_equiv_trans [OF assms Node.prems(3)] by blast
    have "(a, v) \<notin> set (entries l)"
    proof
      assume "(a, v) \<in> set (entries l)"
      then have "cmp (fst v) (fst w)" using B(3) by (auto dest: entries_in_keys)
      then show False using e by (simp add: equivalent_def)
    qed
    moreover have "(a, v) \<notin> set (entries r)"
    proof
      assume "(a, v) \<in> set (entries r)"
      then have "cmp (fst w) (fst v)" using B(4) by (auto dest: entries_in_keys)
      then show False using e by (simp add: equivalent_def)
    qed
    ultimately have "(a, v) = (b, w)" using Node.prems(2) by auto
    then show ?thesis using E by simp
  qed
qed

subsection \<open>The invariant of the map under \<open>insert\<close> and \<open>erase\<close>\<close>

lemma addrs_mset: "mset (addrs t) = image_mset fst (mset (entries t))"
  by (metis map_fst_entries mset_map)

lemma insertNode_addrs:
  assumes "insertNode cmp nn t par val cnt = Some (t', b, i, c)"
  shows "mset (addrs t') = mset (addrs t) + (if b then {#nn#} else {#})"
  using insertNode_entries [OF assms] by (simp add: addrs_mset)

lemma insertNode_distinct:
  assumes "insertNode cmp nn t par val cnt = Some (t', b, i, c)"
    and "distinct (addrs t)" "nn \<notin> set (addrs t)"
  shows "distinct (addrs t')"
proof -
  have "mset (addrs t') = mset (if b then nn # addrs t else addrs t)"
    using insertNode_addrs [OF assms(1)] by simp
  moreover have "distinct (if b then nn # addrs t else addrs t)" using assms(2,3) by simp
  ultimately show ?thesis by (metis mset_eq_imp_distinct_iff)
qed

lemma insertNode_length:
  assumes "insertNode cmp nn t par val cnt = Some (t', b, i, c)"
  shows "length (addrs t') = length (addrs t) + (if b then 1 else 0)"
proof -
  have "size (mset (addrs t')) = size (mset (addrs t) + (if b then {#nn#} else {#}))"
    using insertNode_addrs [OF assms] by simp
  then show ?thesis by (simp split: if_splits)
qed

lemma insertNode_inv:
  assumes swo: "strict_weak_order cmp" and inv: "map_inv cmp m"
    and fresh: "nn \<notin> set (addrs (root m))"
    and ins: "insertNode cmp nn (root m) None val (n m) = Some (t', b, i, c)"
  shows "map_inv cmp \<lparr>root = set_parent None t', n = c\<rparr>"
proof -
  have I: "bst cmp (root m)" "avl (root m)" "parents_ok None (root m)"
    "distinct (addrs (root m))" "n m = of_nat (length (addrs (root m)))"
    using inv by (simp_all add: map_inv_def)
  have 1: "bst cmp t'" using insertNode_bst [OF swo_transp [OF swo] I(1) ins] .
  obtain t2 b2 i2 c2 where "insertNode cmp nn (root m) None val (n m) = Some (t2, b2, Some i2, c2)"
    "avl t2" using insertNode_avl [OF I(2)] by blast
  then have 2: "avl t'" using ins by simp
  have 3: "parents_ok None t'" using insertNode_parents [OF I(3) ins] .
  have 4: "distinct (addrs t')" using insertNode_distinct [OF ins I(4) fresh] .
  have "c = (if b then n m + 1 else n m)" using insertNode_entries [OF ins] by simp
  then have 5: "c = of_nat (length (addrs t'))"
    using insertNode_length [OF ins] I(5) by simp
  show ?thesis using 1 2 3 4 5 by (simp add: map_inv_def)
qed

lemma freed_by_erase_exists:
  assumes "x \<in> set (addrs t)"
  shows "\<exists>sa sv sl sr sp sh. freed_by_erase t x = Node sa sv sl sr sp sh"
proof -
  obtain a v l r p ht where n: "node_at t x = Node a v l r p ht"
    using assms by (cases "node_at t x") auto
  show ?thesis
  proof (cases "l = Null \<or> r = Null")
    case True
    then show ?thesis using n by (auto simp: freed_by_erase_def)
  next
    case False
    then have "minNode r \<noteq> Null" by simp
    then obtain sa sv sl sr sp sh where "minNode r = Node sa sv sl sr sp sh"
      by (cases "minNode r") auto
    then show ?thesis using n False by (auto simp: freed_by_erase_def)
  qed
qed

lemma map_fst_retarget:
  "map fst (map (\<lambda>(b, v). if b = ta then (b, sv) else (b, v)) xs) = map fst xs"
  by (induction xs) auto

lemma map_fst_filter_addr:
  "map fst (filter (\<lambda>x. fst x \<noteq> sa) xs) = filter (\<lambda>a. a \<noteq> sa) (map fst xs)"
  by (induction xs) auto

lemma length_filter_distinct:
  "distinct xs \<Longrightarrow> x \<in> set xs \<Longrightarrow> length (filter (\<lambda>a. a \<noteq> x) xs) + 1 = length xs"
proof (induction xs)
  case Nil
  then show ?case by simp
next
  case (Cons y ys)
  show ?case
  proof (cases "y = x")
    case True
    then have "x \<notin> set ys" using Cons.prems(1) by simp
    then have "filter (\<lambda>a. a \<noteq> x) ys = ys" by (induction ys) auto
    then show ?thesis using True by simp
  next
    case False
    then show ?thesis using Cons by simp
  qed
qed

lemma eraseByNode_addrs:
  assumes "entries t' = map (\<lambda>(b, v). if b = ta then (b, sv) else (b, v))
                   (filter (\<lambda>x. fst x \<noteq> sa) (entries t))"
  shows "addrs t' = filter (\<lambda>a. a \<noteq> sa) (addrs t)"
proof -
  have "addrs t' = map fst (entries t')" by simp
  also have "\<dots> = map fst (filter (\<lambda>x. fst x \<noteq> sa) (entries t))"
    unfolding assms by (rule map_fst_retarget)
  also have "\<dots> = filter (\<lambda>a. a \<noteq> sa) (addrs t)"
    by (simp add: map_fst_filter_addr)
  finally show ?thesis .
qed

lemma eraseByNode_keys_sorted:
  assumes "inorder t' = map snd (filter P (entries t))" "bst cmp t"
  shows "bst cmp t'"
proof -
  have "keys t' = map (fst \<circ> snd) (filter P (entries t))"
    using assms(1) by (simp add: keys_def)
  moreover have "sorted_wrt cmp (map (fst \<circ> snd) (entries t))"
    using assms(2) by (simp add: bst_def keys_entries)
  ultimately show ?thesis
    by (simp add: bst_def sorted_wrt_map sorted_wrt_filter)
qed

lemma word_of_nat_pred:
  "0 < k \<Longrightarrow> (of_nat k :: 64 word) - 1 = of_nat (k - 1)"
  by (cases k) simp_all

lemma eraseByNode_inv:
  assumes swo: "strict_weak_order cmp" and inv: "map_inv cmp m"
    and tg: "(ta, tv) \<in> set (entries (root m))"
    and er: "eraseByNode cmp (root m) (ta, fst tv) e (n m) = Some (t', e', c', fr)"
    and f: "freed_by_erase (root m) ta = Node sa sv sl sr sp sh"
  shows "map_inv cmp \<lparr>root = set_parent None t', n = c'\<rparr>"
    and "e'" and "c' = n m - 1" and "fr = [sa]"
    and "entries t' = map (\<lambda>(b, v). if b = ta then (b, sv) else (b, v))
                   (filter (\<lambda>x. fst x \<noteq> sa) (entries (root m)))"
    and "inorder t' = map snd (filter (\<lambda>x. fst x \<noteq> ta) (entries (root m)))"
    and "addrs t' = filter (\<lambda>a. a \<noteq> sa) (addrs (root m))"
    and "length (addrs t') + 1 = length (addrs (root m))"
proof -
  have I: "bst cmp (root m)" "avl (root m)" "parents_ok None (root m)"
    "distinct (addrs (root m))" "n m = of_nat (length (addrs (root m)))"
    using inv by (simp_all add: map_inv_def)
  have irr: "\<forall>x. \<not> cmp x x" using swo by (simp add: swo_irrefl)
  note C = eraseByNode_content [OF irr swo_transp [OF swo] I(1,4) tg er f]
  show e': "e'" using C by (rule conjunct1)
  show c': "c' = n m - 1" using C by blast
  show "fr = [sa]" using C by blast
  show en: "entries t' = map (\<lambda>(b, v). if b = ta then (b, sv) else (b, v))
                   (filter (\<lambda>x. fst x \<noteq> sa) (entries (root m)))" using C by blast
  show ino: "inorder t' = map snd (filter (\<lambda>x. fst x \<noteq> ta) (entries (root m)))"
    using C by blast
  show ad: "addrs t' = filter (\<lambda>a. a \<noteq> sa) (addrs (root m))"
    using eraseByNode_addrs [OF en] .
  have sa_in: "sa \<in> set (addrs (root m))"
    using freed_by_erase_in [OF f] by (rule entries_in_addrs)
  show len: "length (addrs t') + 1 = length (addrs (root m))"
    using length_filter_distinct [OF I(4) sa_in] ad by simp
  have 1: "bst cmp t'" using eraseByNode_keys_sorted [OF ino I(1)] .
  obtain t2 e2 c2 fr2 where
    "eraseByNode cmp (root m) (ta, fst tv) e (n m) = Some (t2, e2, c2, fr2)" "avl t2"
    using eraseByNode_avl [OF I(2)] by blast
  then have 2: "avl t'" using er by simp
  have 3: "kids_ok t'" using eraseByNode_kids [OF parents_ok_kids [OF I(3)] er] .
  have 4: "distinct (addrs t')" using ad I(4) by simp
  have "0 < length (addrs (root m))" using len by linarith
  then have "(of_nat (length (addrs (root m))) :: 64 word) - 1
      = of_nat (length (addrs (root m)) - 1)" by (rule word_of_nat_pred)
  moreover have "length (addrs (root m)) - 1 = length (addrs t')" using len by linarith
  ultimately have 5: "c' = of_nat (length (addrs t'))"
    using c' I(5) by (simp only:)
  show "map_inv cmp \<lparr>root = set_parent None t', n = c'\<rparr>"
    using 1 2 3 4 5 by (simp add: map_inv_def)
qed

lemma erase_valid:
  assumes swo: "strict_weak_order cmp" and inv: "map_inv cmp m"
    and pos: "owner pos = Some this" "cur pos = Some ta"
    and tg: "node_at (root m) ta = Node a tv l r p ht"
    and f: "freed_by_erase (root m) ta = Node sa sv sl sr sp sh"
  shows "\<exists>m'. erase cmp this m pos = Some (Inr [sa], m') \<and> map_inv cmp m' \<and>
           n m' = n m - 1 \<and>
           entries (root m') = map (\<lambda>(b, v). if b = ta then (b, sv) else (b, v))
                   (filter (\<lambda>x. fst x \<noteq> sa) (entries (root m))) \<and>
           inorder (root m') = map snd (filter (\<lambda>x. fst x \<noteq> ta) (entries (root m))) \<and>
           addrs (root m') = filter (\<lambda>a. a \<noteq> sa) (addrs (root m)) \<and>
           length (addrs (root m')) + 1 = length (addrs (root m))"
proof -
  have a: "a = ta" using node_at_ptr [OF tg] .
  have tin: "(ta, tv) \<in> set (entries (root m))" using node_at_in_entries [OF tg] .
  have "avl (root m)" using inv by (simp add: map_inv_def)
  then obtain t' e' c' fr where
    er: "eraseByNode cmp (root m) (ta, fst tv) False (n m) = Some (t', e', c', fr)"
    using eraseByNode_avl by blast
  note E = eraseByNode_inv [OF swo inv tin er f]
  let ?m' = "\<lparr>root = set_parent None t', n = c'\<rparr>"
  have "node_at (root m) (the (cur pos)) = Node ta tv l r p ht" using pos(2) tg a by simp
  then have 0: "erase cmp this m pos = Some (Inr [sa], ?m')"
    using pos er E(2,4) by (simp add: erase_def)
  have 1: "n ?m' = n m - 1" using E(3) by simp
  have 2: "entries (root ?m') = entries t'" "inorder (root ?m') = inorder t'"
    "addrs (root ?m') = addrs t'" by simp_all
  show ?thesis
  proof (intro exI [of _ ?m'] conjI)
    show "erase cmp this m pos = Some (Inr [sa], ?m')" by (rule 0)
    show "map_inv cmp ?m'" by (rule E(1))
    show "n ?m' = n m - 1" by (rule 1)
    show "entries (root ?m') = map (\<lambda>(b, v). if b = ta then (b, sv) else (b, v))
                   (filter (\<lambda>x. fst x \<noteq> sa) (entries (root m)))"
      unfolding 2 by (rule E(5))
    show "inorder (root ?m') = map snd (filter (\<lambda>x. fst x \<noteq> ta) (entries (root m)))"
      unfolding 2 by (rule E(6))
    show "addrs (root ?m') = filter (\<lambda>a. a \<noteq> sa) (addrs (root m))"
      unfolding 2 by (rule E(7))
    show "length (addrs (root ?m')) + 1 = length (addrs (root m))"
      unfolding 2 by (rule E(8))
  qed
qed

lemma node_at_segment:
  "node_at t x = Node a v l r p ht \<Longrightarrow>
     \<exists>xs ys. entries t = xs @ entries l @ (a, v) # entries r @ ys"
proof (induction t)
  case Null
  then show ?case by simp
next
  case (Node b w l0 r0 q g)
  show ?case
  proof (cases "b = x")
    case True
    then have "entries (Node b w l0 r0 q g) = [] @ entries l @ (a, v) # entries r @ []"
      using Node.prems by simp
    then show ?thesis by blast
  next
    case False
    show ?thesis
    proof (cases "x \<notin> set (addrs l0)")
      case True
      have "node_at (Node b w l0 r0 q g) x = node_at r0 x" using True False by (rule node_at_right)
      then have "node_at r0 x = Node a v l r p ht" using Node.prems by (simp only:)
      then obtain xs ys where "entries r0 = xs @ entries l @ (a, v) # entries r @ ys"
        using Node.IH(2) by blast
      then have "entries (Node b w l0 r0 q g) =
          (entries l0 @ (b, w) # xs) @ entries l @ (a, v) # entries r @ ys" by simp
      then show ?thesis by blast
    next
      case nn: False
      then have xin: "x \<in> set (addrs l0)" by simp
      have "node_at (Node b w l0 r0 q g) x = node_at l0 x" using xin False by (rule node_at_left)
      then have "node_at l0 x = Node a v l r p ht" using Node.prems by (simp only:)
      then obtain xs ys where "entries l0 = xs @ entries l @ (a, v) # entries r @ ys"
        using Node.IH(1) by blast
      then have "entries (Node b w l0 r0 q g) =
          xs @ entries l @ (a, v) # entries r @ (ys @ (b, w) # entries r0)" by simp
      then show ?thesis by blast
    qed
  qed
qed

lemma successor_copy_entries:
  assumes d: "distinct (map fst (xs @ (ta, tv) # (sa, sv) # ys))"
  shows "map (\<lambda>(b, v). if b = ta then (b, sv) else (b, v))
           (filter (\<lambda>x. fst x \<noteq> sa) (xs @ (ta, tv) # (sa, sv) # ys)) = xs @ (ta, sv) # ys"
proof -
  have 1: "sa \<notin> fst ` set xs" "sa \<notin> fst ` set ys" "ta \<notin> fst ` set xs" "ta \<notin> fst ` set ys"
    "ta \<noteq> sa" using d by auto
  have "filter (\<lambda>x. fst x \<noteq> sa) (xs @ (ta, tv) # (sa, sv) # ys) = xs @ (ta, tv) # ys"
    using filter_addr_id [OF 1(1)] filter_addr_id [OF 1(2)] 1(5) by simp
  moreover have "map (\<lambda>(b, v). if b = ta then (b, sv) else (b, v)) (xs @ (ta, tv) # ys)
      = xs @ (ta, sv) # ys"
    using map_retarget_id [OF 1(3)] map_retarget_id [OF 1(4)] by simp
  ultimately show ?thesis by (simp only:)
qed

lemma int_less_swo: "strict_weak_order ((<) :: int \<Rightarrow> int \<Rightarrow> bool)"
  by (auto simp: strict_weak_order_def equivalent_def)

lemma ex_map_inv: "map_inv (<) ex_map"
  by (simp add: ex_map_def map_inv_def bst_def keys_def)

lemma entry_unique:
  assumes "strict_weak_order cmp" "bst cmp t"
    and "(a, kv) \<in> set (entries t)" "equivalent cmp (fst kv) k"
    and "(a', kv') \<in> set (entries t)" "equivalent cmp (fst kv') k"
  shows "a' = a \<and> kv' = kv"
proof -
  obtain l r p ht where 1: "findNode cmp t k = Node a kv l r p ht"
    using findNode_unique [OF assms(1,2,3,4)] by blast
  obtain l' r' p' ht' where 2: "findNode cmp t k = Node a' kv' l' r' p' ht'"
    using findNode_unique [OF assms(1,2,5,6)] by blast
  show ?thesis using 1 2 by simp
qed

lemma map_state_eq: "\<lparr>root = root m, n = n m\<rparr> = (m :: ('k, 'v) map_state)"
  by simp

lemma insert_map_present:
  assumes swo: "strict_weak_order cmp" and inv: "map_inv cmp m"
    and e: "(a, kv) \<in> set (entries (root m))" and q: "equivalent cmp (fst kv) (fst val)"
  shows "insert_map cmp this nn m val = Some ((\<lparr>cur = Some a, owner = Some this\<rparr>, False), m)"
proof -
  have I: "bst cmp (root m)" "avl (root m)" "parents_ok None (root m)"
    using inv by (simp_all add: map_inv_def)
  obtain t' b i c where ins: "insertNode cmp nn (root m) None val (n m) = Some (t', b, Some i, c)"
    using insertNode_avl [OF I(2)] by blast
  have "fst kv \<in> set (keys (root m))" using e by (rule entries_in_keys)
  then have b: "\<not> b" using insertNode_flag [OF swo_transp [OF swo] I(1) ins] q by blast
  then have ins': "insertNode cmp nn (root m) None val (n m) = Some (t', False, Some i, c)"
    using ins by simp
  have t': "t' = root m" using insertNode_unchanged [OF I(2,3) ins'] .
  have c: "c = n m" using insertNode_entries [OF ins'] by simp
  obtain a' kv' where f: "Some i = Some a'" "(a', kv') \<in> set (entries (root m))"
    "equivalent cmp (fst kv') (fst val)" using insertNode_found [OF ins'] by blast
  have "i = a" using entry_unique [OF swo I(1) e q f(2,3)] f(1) by simp
  then show ?thesis using ins' t' c I(3) by (simp add: insert_map_def)
qed

lemma insert_map_absent:
  assumes swo: "strict_weak_order cmp" and inv: "map_inv cmp m"
    and fresh: "nn \<notin> set (addrs (root m))"
    and ab: "\<forall>x\<in>set (keys (root m)). \<not> equivalent cmp x (fst val)"
  shows "\<exists>m'. insert_map cmp this nn m val = Some ((\<lparr>cur = Some nn, owner = Some this\<rparr>, True), m') \<and>
           map_inv cmp m' \<and> n m' = n m + 1 \<and>
           mset (entries (root m')) = mset (entries (root m)) + {#(nn, val)#}"
proof -
  have I: "bst cmp (root m)" "avl (root m)" "parents_ok None (root m)"
    using inv by (simp_all add: map_inv_def)
  obtain t' b i c where ins: "insertNode cmp nn (root m) None val (n m) = Some (t', b, Some i, c)"
    using insertNode_avl [OF I(2)] by blast
  have b: "b" using insertNode_flag [OF swo_transp [OF swo] I(1) ins] ab by blast
  note E = insertNode_entries [OF ins]
  have i: "i = nn" and c: "c = n m + 1" using E b by simp_all
  let ?m' = "\<lparr>root = set_parent None t', n = c\<rparr>"
  have "map_inv cmp ?m'" using insertNode_inv [OF swo inv fresh ins] .
  moreover have "insert_map cmp this nn m val =
      Some ((\<lparr>cur = Some nn, owner = Some this\<rparr>, True), ?m')"
    using ins b i by (simp add: insert_map_def)
  moreover have "mset (entries (root ?m')) = mset (entries (root m)) + {#(nn, val)#}"
    using E b by simp
  moreover have "n ?m' = n m + 1" using c by simp
  ultimately show ?thesis by blast
qed

lemma at_found:
  "findNode cmp (root m) key = Node a v l r p ht \<Longrightarrow> at cmp m key = (Inr (a, snd v), m)"
  by (simp add: at_def)

lemma addrs_Nil [simp]: "(addrs t = []) = (t = Null)"
  by (cases t) auto

lemma minNode_ptr: "t \<noteq> Null \<Longrightarrow> ptr_of (minNode t) = Some (hd (addrs t))"
  by (induction t) auto

lemma maxNode_ptr: "t \<noteq> Null \<Longrightarrow> ptr_of (maxNode t) = Some (last (addrs t))"
  by (induction t) auto

lemma word64_of_nat_eq_0:
  "k < 2 ^ 64 \<Longrightarrow> ((of_nat k :: 64 word) = 0) = (k = 0)"
  by (simp add: of_nat_0_eq_iff word_of_nat_eq_0_iff dvd_imp_le linorder_not_less
      flip: not_less) (metis dvd_imp_le not_less zero_less_iff_neq_zero dvd_0_right)

subsection \<open>\<open>predecessor\<close> and the in-order list\<close>

lemma pred_in_notin: "x \<notin> set ys \<Longrightarrow> pred_in (y # ys) x = None"
  by (induction ys arbitrary: y) auto

lemma pred_in_head: "distinct (x # ys) \<Longrightarrow> pred_in (x # ys) x = None"
  by (simp add: pred_in_notin)

lemma pred_in_mid: "distinct (xs @ b # x # ys) \<Longrightarrow> pred_in (xs @ b # x # ys) x = Some b"
proof (induction xs rule: induct_list012)
  case 1
  then show ?case by simp
next
  case (2 y)
  then show ?case by auto
next
  case (3 y z zs)
  then show ?case by auto
qed

lemma pred_in_append_left:
  assumes "distinct (xs @ ys)" "x \<in> set xs"
  shows "pred_in (xs @ ys) x = pred_in xs x"
proof -
  obtain x1 x2 where s: "xs = x1 @ x # x2" using assms(2) by (auto simp: in_set_conv_decomp)
  show ?thesis
  proof (cases x1 rule: rev_cases)
    case Nil
    then show ?thesis using assms(1) s pred_in_head [of x "x2 @ ys"] pred_in_head [of x x2]
      by simp
  next
    case (snoc x1' b)
    have "pred_in (x1' @ b # x # (x2 @ ys)) x = Some b"
      using assms(1) s snoc by (intro pred_in_mid) auto
    moreover have "pred_in (x1' @ b # x # x2) x = Some b"
      using assms(1) s snoc by (intro pred_in_mid) auto
    ultimately show ?thesis using s snoc by simp
  qed
qed

lemma pred_in_root:
  assumes "distinct (xs @ a # ys)"
  shows "pred_in (xs @ a # ys) a = (if xs = [] then None else Some (last xs))"
proof (cases xs rule: rev_cases)
  case Nil
  then show ?thesis using assms pred_in_head [of a ys] by simp
next
  case (snoc xs' b)
  then have "pred_in (xs' @ b # a # ys) a = Some b" using assms by (intro pred_in_mid) simp
  then show ?thesis using snoc by simp
qed

lemma pred_in_append_right:
  assumes "distinct (xs @ a # ys)" "x \<in> set ys"
  shows "pred_in (xs @ a # ys) x = (case pred_in ys x of None \<Rightarrow> Some a | Some b \<Rightarrow> Some b)"
proof -
  obtain y1 y2 where s: "ys = y1 @ x # y2" using assms(2) by (auto simp: in_set_conv_decomp)
  show ?thesis
  proof (cases y1 rule: rev_cases)
    case Nil
    have "pred_in (xs @ a # x # y2) x = Some a" using assms(1) s Nil by (intro pred_in_mid) simp
    moreover have "pred_in (x # y2) x = None" using assms(1) s Nil by (intro pred_in_head) simp
    ultimately show ?thesis using s Nil by simp
  next
    case (snoc y1' b)
    have "pred_in ((xs @ a # y1') @ b # x # y2) x = Some b"
      using assms(1) s snoc by (intro pred_in_mid) simp
    moreover have "pred_in (y1' @ b # x # y2) x = Some b"
      using assms(1) s snoc by (intro pred_in_mid) simp
    ultimately show ?thesis using s snoc by simp
  qed
qed

lemma node_at_root [simp]: "node_at (Node a v l r p ht) a = Node a v l r p ht"
  by simp

lemma node_at_child:
  "distinct (addrs t) \<Longrightarrow> node_at t a = Node a v l r p ht \<Longrightarrow>
     (\<forall>la lv ll lr lp lh. l = Node la lv ll lr lp lh \<longrightarrow> node_at t la = l) \<and>
     (\<forall>ra rv rl rr rp rh. r = Node ra rv rl rr rp rh \<longrightarrow> node_at t ra = r)"
proof (induction t)
  case Null
  then show ?case by simp
next
  case (Node b w L R q g)
  have D: "distinct (addrs L)" "distinct (addrs R)" "b \<notin> set (addrs L)" "b \<notin> set (addrs R)"
    "set (addrs L) \<inter> set (addrs R) = {}" using Node.prems(1) by auto
  show ?case
  proof (cases "b = a")
    case True
    then have eq: "l = L" "r = R" using Node.prems(2) by simp_all
    show ?thesis
    proof (intro conjI allI impI)
      fix la lv ll lr lp lh assume l: "l = Node la lv ll lr lp lh"
      then have "la \<in> set (addrs L)" using eq by auto
      moreover then have "b \<noteq> la" using D(3) by auto
      ultimately have A: "node_at (Node b w L R q g) la = node_at L la" by (rule node_at_left)
      have B: "node_at L la = l" using l eq by simp
      show "node_at (Node b w L R q g) la = l" using A B by (rule trans)
    next
      fix ra rv rl rr rp rh assume r: "r = Node ra rv rl rr rp rh"
      then have "ra \<in> set (addrs R)" using eq by auto
      then have "ra \<notin> set (addrs L)" "b \<noteq> ra" using D(4,5) by auto
      then have A: "node_at (Node b w L R q g) ra = node_at R ra" by (rule node_at_right)
      have B: "node_at R ra = r" using r eq by simp
      show "node_at (Node b w L R q g) ra = r" using A B by (rule trans)
    qed
  next
    case False
    show ?thesis
    proof (cases "a \<in> set (addrs L)")
      case True
      have "node_at (Node b w L R q g) a = node_at L a" using True False by (rule node_at_left)
      then have n: "node_at L a = Node a v l r p ht" using Node.prems(2) by (simp only:)
      note IH = Node.IH(1) [OF D(1) n]
      show ?thesis
      proof (intro conjI allI impI)
        fix la lv ll lr lp lh assume l: "l = Node la lv ll lr lp lh"
        then have 1: "node_at L la = l" using IH by blast
        then have "node_at L la \<noteq> Null" using l by simp
        then have "la \<in> set (addrs L)" by simp
        moreover then have "b \<noteq> la" using D(3) by auto
        ultimately have "node_at (Node b w L R q g) la = node_at L la" by (rule node_at_left)
        then show "node_at (Node b w L R q g) la = l" using 1 by (rule trans)
      next
        fix ra rv rl rr rp rh assume r: "r = Node ra rv rl rr rp rh"
        then have 1: "node_at L ra = r" using IH by blast
        then have "node_at L ra \<noteq> Null" using r by simp
        then have "ra \<in> set (addrs L)" by simp
        moreover then have "b \<noteq> ra" using D(3) by auto
        ultimately have "node_at (Node b w L R q g) ra = node_at L ra" by (rule node_at_left)
        then show "node_at (Node b w L R q g) ra = r" using 1 by (rule trans)
      qed
    next
      case nl: False
      have "node_at (Node b w L R q g) a = node_at R a" using nl False by (rule node_at_right)
      then have n: "node_at R a = Node a v l r p ht" using Node.prems(2) by (simp only:)
      note IH = Node.IH(2) [OF D(2) n]
      show ?thesis
      proof (intro conjI allI impI)
        fix la lv ll lr lp lh assume l: "l = Node la lv ll lr lp lh"
        then have 1: "node_at R la = l" using IH by blast
        then have "node_at R la \<noteq> Null" using l by simp
        then have "la \<in> set (addrs R)" by simp
        then have "la \<notin> set (addrs L)" "b \<noteq> la" using D(4,5) by auto
        then have "node_at (Node b w L R q g) la = node_at R la" by (rule node_at_right)
        then show "node_at (Node b w L R q g) la = l" using 1 by (rule trans)
      next
        fix ra rv rl rr rp rh assume r: "r = Node ra rv rl rr rp rh"
        then have 1: "node_at R ra = r" using IH by blast
        then have "node_at R ra \<noteq> Null" using r by simp
        then have "ra \<in> set (addrs R)" by simp
        then have "ra \<notin> set (addrs L)" "b \<noteq> ra" using D(4,5) by auto
        then have "node_at (Node b w L R q g) ra = node_at R ra" by (rule node_at_right)
        then show "node_at (Node b w L R q g) ra = r" using 1 by (rule trans)
      qed
    qed
  qed
qed

lemma node_at_distinct:
  assumes "node_at t a = Node a v l r p ht" "distinct (addrs t)"
  shows "distinct (addrs l @ a # addrs r)"
proof -
  obtain xs ys where "entries t = xs @ entries l @ (a, v) # entries r @ ys"
    using node_at_segment [OF assms(1)] by blast
  then have "map fst (entries t) = map fst xs @ addrs l @ a # addrs r @ map fst ys"
    by (simp del: map_fst_entries add: map_fst_entries [symmetric])
  then have "distinct (map fst xs @ addrs l @ a # addrs r @ map fst ys)"
    using assms(2) by simp
  then show ?thesis by auto
qed

lemma climb_left_None: "climb_left G x None = Some None"
  by (subst climb_left.simps) simp

lemma climb_left_step:
  "node_at G pa = Node pa v l r q ht \<Longrightarrow>
     climb_left G x (Some pa) = (if ptr_of l = Some x then climb_left G pa q else Some (Some pa))"
  by (subst climb_left.simps) simp

lemma predecessor_node:
  "node_at G a = Node a v l r p ht \<Longrightarrow>
     predecessor G (Some a) =
       (if l \<noteq> Null then Some (ptr_of (maxNode l)) else climb_left G a p)"
  by (simp add: predecessor_def)

lemma ptr_of_in_addrs: "ptr_of t = Some a \<Longrightarrow> a \<in> set (addrs t)"
  by (cases t) auto

lemma predecessor_subtree:
  assumes G: "distinct (addrs G)"
  shows "ptr_of s = Some a \<Longrightarrow> node_at G a = s \<Longrightarrow> parents_ok pp s \<Longrightarrow>
     x \<in> set (addrs s) \<Longrightarrow>
     predecessor G (Some x) =
       (case pred_in (addrs s) x of Some b \<Rightarrow> Some (Some b) | None \<Rightarrow> climb_left G a pp)"
proof (induction s arbitrary: a pp x)
  case Null
  then show ?case by simp
next
  case (Node b w L R q g)
  have ab: "a = b" using Node.prems(1) by simp
  have n: "node_at G b = Node b w L R q g" using Node.prems(2) ab by simp
  have P: "q = pp" "parents_ok (Some b) L" "parents_ok (Some b) R" using Node.prems(3) by auto
  have D: "distinct (addrs L @ b # addrs R)" using node_at_distinct [OF n G] .
  note ch = node_at_child [OF G n]
  consider (root) "x = b" | (left) "x \<in> set (addrs L)" | (right) "x \<in> set (addrs R)"
    using Node.prems(4) by auto
  then show ?case
  proof cases
    case root
    have 1: "pred_in (addrs L @ b # addrs R) b = (if addrs L = [] then None else Some (last (addrs L)))"
      using D by (rule pred_in_root)
    show ?thesis
    proof (cases "L = Null")
      case True
      then show ?thesis using predecessor_node [OF n] 1 root ab P(1) by simp
    next
      case False
      then show ?thesis using predecessor_node [OF n] 1 root maxNode_ptr [OF False] by simp
    qed
  next
    case left
    then obtain la lv ll lr lp lh where L: "L = Node la lv ll lr lp lh" by (cases L) auto
    have nl: "node_at G la = L" using ch L by blast
    have "predecessor G (Some x) =
       (case pred_in (addrs L) x of Some b' \<Rightarrow> Some (Some b') | None \<Rightarrow> climb_left G la (Some b))"
      using Node.IH(1) [OF _ nl P(2) left] L by simp
    moreover have "climb_left G la (Some b) = climb_left G b q"
      using climb_left_step [OF n, of la] L by simp
    moreover have "pred_in (addrs L @ b # addrs R) x = pred_in (addrs L) x"
      using D left by (rule pred_in_append_left)
    ultimately show ?thesis using ab P(1) by (simp split: option.splits)
  next
    case right
    then obtain ra rv rl rr rp rh where R: "R = Node ra rv rl rr rp rh" by (cases R) auto
    have nr: "node_at G ra = R" using ch R by blast
    have "ra \<in> set (addrs R)" using R by simp
    then have "ra \<notin> set (addrs L)" using D by auto
    then have "ptr_of L \<noteq> Some ra" using ptr_of_in_addrs by blast
    then have c: "climb_left G ra (Some b) = Some (Some b)"
      using climb_left_step [OF n, of ra] by simp
    have "predecessor G (Some x) =
       (case pred_in (addrs R) x of Some b' \<Rightarrow> Some (Some b') | None \<Rightarrow> climb_left G ra (Some b))"
      using Node.IH(2) [OF _ nr P(3) right] R by simp
    moreover have "pred_in (addrs L @ b # addrs R) x =
        (case pred_in (addrs R) x of None \<Rightarrow> Some b | Some b' \<Rightarrow> Some b')"
      using D right by (rule pred_in_append_right)
    ultimately show ?thesis using c by (simp split: option.splits)
  qed
qed

lemma predecessor_inorder:
  assumes "distinct (addrs G)" "parents_ok None G" "addrs G = xs @ b # a # ys"
  shows "predecessor G (Some a) = Some (Some b)"
proof -
  obtain g v l r p ht where Gn: "G = Node g v l r p ht" using assms(3) by (cases G) auto
  have 1: "ptr_of G = Some g" "node_at G g = G" using Gn by simp_all
  have 2: "a \<in> set (addrs G)" using assms(3) by simp
  have "pred_in (addrs G) a = Some b" using assms(1,3) pred_in_mid [of xs b a ys] by simp
  then show ?thesis using predecessor_subtree [OF assms(1) 1 assms(2) 2] by simp
qed

lemma sorted_wrt_last:
  "sorted_wrt P (xs @ [x]) \<Longrightarrow> \<forall>y\<in>set xs. P y x"
  by (simp add: sorted_wrt_append)

subsection \<open>The facade operations\<close>

lemma height_clone [simp]: "height (clone f t par) = height t"
  by (induction t arbitrary: par) auto

lemma avl_clone [simp]: "avl (clone f t par) = avl t"
  by (induction t arbitrary: par) auto

lemma avl_fix_root_children [simp]: "avl (fix_root_children t) = avl t"
  by (cases t) auto

lemma insert_map_avl:
  assumes "avl (root m)"
  shows "\<exists>r m'. insert_map cmp this nn m val = Some (r, m') \<and> avl (root m')"
proof -
  obtain t' b i c where "insertNode cmp nn (root m) None val (n m) = Some (t', b, Some i, c)"
    "avl t'" using insertNode_avl [OF assms] by blast
  then show ?thesis by (simp add: insert_map_def)
qed

lemma erase_cases:
  assumes "erase cmp this m pos = Some (res, m')"
  obtains (throw) "owner pos \<noteq> Some this \<or> cur pos = None" "res = Inl invalid_iterator" "m' = m"
  | (valid) ta tv l r p ht t' e' c' fr where "owner pos = Some this" "cur pos = Some ta"
      "node_at (root m) ta = Node ta tv l r p ht"
      "eraseByNode cmp (root m) (ta, fst tv) False (n m) = Some (t', e', c', fr)"
      "m' = \<lparr>root = set_parent None t', n = c'\<rparr>"
      "res = (if e' then Inr fr else Inl invalid_iterator)"
proof (cases "owner pos \<noteq> Some this \<or> cur pos = None")
  case True
  then show ?thesis using assms that(1) by (simp add: erase_def)
next
  case False
  then obtain ta where p: "owner pos = Some this" "cur pos = Some ta" by auto
  then have *: "(case node_at (root m) ta of
           Null \<Rightarrow> None
         | Node a v l r p ht \<Rightarrow>
             (case eraseByNode cmp (root m) (a, fst v) False (n m) of
                None \<Rightarrow> None
              | Some (res, erased, cnt, freed) \<Rightarrow>
                  Some (if erased then Inr freed else Inl invalid_iterator,
                        \<lparr>root = set_parent None res, n = cnt\<rparr>))) = Some (res, m')"
    using assms by (simp add: erase_def)
  then obtain a tv l r q ht where nd: "node_at (root m) ta = Node a tv l r q ht"
    by (cases "node_at (root m) ta") auto
  have a: "a = ta" using node_at_ptr [OF nd] .
  obtain t' e' c' fr where
    er: "eraseByNode cmp (root m) (ta, fst tv) False (n m) = Some (t', e', c', fr)"
    and r: "m' = \<lparr>root = set_parent None t', n = c'\<rparr>"
      "res = (if e' then Inr fr else Inl invalid_iterator)"
    using * nd a by (cases "eraseByNode cmp (root m) (ta, fst tv) False (n m)") auto
  show ?thesis using that(2) [OF p nd [unfolded a] er r] .
qed

lemma erase_avl:
  assumes "avl (root m)" "erase cmp this m pos = Some (res, m')"
  shows "avl (root m')"
  using assms(2)
proof (cases rule: erase_cases)
  case throw
  then show ?thesis using assms(1) by simp
next
  case (valid ta tv l r p ht t' e' c' fr)
  obtain t2 e2 c2 fr2 where
    "eraseByNode cmp (root m) (ta, fst tv) False (n m) = Some (t2, e2, c2, fr2)" "avl t2"
    using eraseByNode_avl [OF assms(1)] by blast
  then show ?thesis using valid(4,5) by simp
qed

lemma erase_None:
  assumes "avl (root m)" "erase cmp this m pos = None"
  shows "\<exists>a. cur pos = Some a \<and> a \<notin> set (addrs (root m))"
proof (cases "owner pos \<noteq> Some this \<or> cur pos = None")
  case True
  then show ?thesis using assms(2) by (simp add: erase_def)
next
  case False
  then obtain ta where p: "owner pos = Some this" "cur pos = Some ta" by auto
  show ?thesis
  proof (cases "node_at (root m) ta")
    case Null
    then show ?thesis using p by simp
  next
    case (Node a tv l r q ht)
    obtain t2 e2 c2 fr2 where
      "eraseByNode cmp (root m) (a, fst tv) False (n m) = Some (t2, e2, c2, fr2)"
      using eraseByNode_avl [OF assms(1)] by blast
    then show ?thesis using assms(2) p Node by (simp add: erase_def)
  qed
qed

lemma findNode_Null_insert:
  "findNode cmp t (fst val) = Null \<Longrightarrow>
   insertNode cmp nn t par val cnt = Some (t', b, i, c) \<Longrightarrow> b"
proof (induction t arbitrary: par t')
  case Null
  then show ?case by auto
next
  case (Node a v l r p ht)
  from Node.prems(2) show ?case
  proof (cases rule: insertNode_Node_cases)
    case (L l' t1)
    then show ?thesis using Node.IH(1) Node.prems(1) by simp
  next
    case (R r' t1)
    then show ?thesis using Node.IH(2) Node.prems(1) by simp
  next
    case E
    then show ?thesis using Node.prems(1) by simp
  qed
qed

lemma index_rw_avl:
  assumes "avl (root m)"
  shows "\<exists>r m'. index_rw cmp nn dflt m key = Some (r, m') \<and> avl (root m')"
proof (cases "findNode cmp (root m) key")
  case (Node a v l r p ht)
  then show ?thesis using assms by (simp add: index_rw_def)
next
  case Null
  obtain t' b i c where
    ins: "insertNode cmp nn (root m) None (key, dflt) (n m) = Some (t', b, Some i, c)"
    and a: "avl t'" using insertNode_avl [OF assms] by blast
  have b: "b" using findNode_Null_insert [OF _ ins] Null by simp
  note E = insertNode_entries [OF ins]
  have i: "i = nn" using E b by simp
  have "set_mset (mset (entries t')) =
      set_mset (mset (entries (root m)) + {#(nn, (key, dflt))#})" using E b by simp
  then have "(nn, (key, dflt)) \<in> set (entries t')" by simp
  then have "nn \<in> set (addrs (set_parent None t'))" by (auto dest: entries_in_addrs)
  then obtain a' v' l' r' p' ht' where "node_at (set_parent None t') nn = Node a' v' l' r' p' ht'"
    by (cases "node_at (set_parent None t') nn") auto
  then show ?thesis using Null ins i a by (simp add: index_rw_def)
qed

lemma run_inv:
  assumes "strict_weak_order cmp"
  shows "map_inv cmp m \<Longrightarrow> run cmp this ops m = Some m' \<Longrightarrow> map_inv cmp m'"
proof (induction ops arbitrary: m)
  case Nil
  then show ?case by simp
next
  case (Cons op ops)
  show ?case
  proof (cases op)
    case (Insert nn val)
    then have fresh: "nn \<notin> set (addrs (root m))" using Cons.prems(2) by (auto split: if_splits)
    then obtain res m1 where i: "insert_map cmp this nn m val = Some (res, m1)"
      and r: "run cmp this ops m1 = Some m'"
      using Cons.prems(2) Insert by (auto split: option.splits)
    obtain t' b i' c where ins: "insertNode cmp nn (root m) None val (n m) = Some (t', b, i', c)"
      and m1: "m1 = \<lparr>root = set_parent None t', n = c\<rparr>"
      using i by (cases "insertNode cmp nn (root m) None val (n m)") (auto simp: insert_map_def)
    have "map_inv cmp m1" using insertNode_inv [OF assms Cons.prems(1) fresh ins] m1 by simp
    then show ?thesis using Cons.IH r by blast
  next
    case (Erase pos)
    then obtain res m1 where e: "erase cmp this m pos = Some (res, m1)"
      and r: "run cmp this ops m1 = Some m'"
      using Cons.prems(2) by (auto split: option.splits)
    from e have "map_inv cmp m1"
    proof (cases rule: erase_cases)
      case throw
      then show ?thesis using Cons.prems(1) by simp
    next
      case (valid ta tv l r p ht t' e' c' fr)
      have "ta \<in> set (addrs (root m))" using node_at_in_entries [OF valid(3)]
        by (rule entries_in_addrs)
      then obtain sa sv sl sr sp sh where f: "freed_by_erase (root m) ta = Node sa sv sl sr sp sh"
        using freed_by_erase_exists by blast
      show ?thesis
        using eraseByNode_inv(1) [OF assms Cons.prems(1) node_at_in_entries [OF valid(3)] valid(4) f]
          valid(5) by simp
    qed
    then show ?thesis using Cons.IH r by blast
  qed
qed

lemma map_default_inv: "map_inv cmp map_default"
  by (simp add: map_default_def map_inv_def)

lemma sorted_wrt_no_equivalent:
  assumes "sorted_wrt cmp ks" "i < j" "j < length ks"
  shows "\<not> equivalent cmp (ks ! i) (ks ! j)"
  using sorted_wrt_nth_less [OF assms] by (simp add: equivalent_def)

lemma entries_clone: "map snd (entries (clone f t par)) = map snd (entries t)"
  by (induction t arbitrary: par) auto

lemma inorder_clone [simp]: "inorder (clone f t par) = inorder t"
  using entries_clone [of f t par] by simp

lemma addrs_clone [simp]: "addrs (clone f t par) = map f (addrs t)"
  by (induction t arbitrary: par) auto

lemma parents_ok_clone [simp]: "parents_ok par (clone f t par)"
  by (induction t arbitrary: par) auto

lemma fix_root_children_id: "parents_ok p t \<Longrightarrow> fix_root_children t = t"
  by (cases t) auto

lemma map_copy_inv:
  assumes "map_inv cmp other" "inj_on f (set (addrs (root other)))"
  shows "map_inv cmp (map_copy f other)"
proof -
  have "fix_root_children (clone f (root other) None) = clone f (root other) None"
    by (rule fix_root_children_id [of None]) simp
  then have r: "root (map_copy f other) = clone f (root other) None" "n (map_copy f other) = n other"
    by (simp_all add: map_copy_def)
  have "distinct (map f (addrs (root other)))"
    using assms by (simp add: map_inv_def distinct_map)
  then show ?thesis using assms(1) unfolding map_inv_def r
    by (simp add: bst_def keys_def)
qed

lemma clear_inv: "map_inv cmp (fst (clear m))"
  by (simp add: clear_def map_inv_def)

lemma assign_inv:
  assumes "map_inv cmp m" "map_inv cmp other" "inj_on f (set (addrs (root other)))"
  shows "map_inv cmp (fst (assign f this m other_addr other))"
proof (cases "this = other_addr")
  case True
  then show ?thesis using assms(1) by (simp add: assign_def)
next
  case False
  then have "fst (assign f this m other_addr other) = map_copy f other"
    by (simp add: assign_def map_copy_def)
  then show ?thesis using map_copy_inv [OF assms(2,3)] by simp
qed

lemma insert_map_inv:
  assumes "strict_weak_order cmp" "map_inv cmp m" "nn \<notin> set (addrs (root m))"
    and "insert_map cmp this nn m val = Some (res, m')"
  shows "map_inv cmp m'"
proof -
  obtain t' b i c where ins: "insertNode cmp nn (root m) None val (n m) = Some (t', b, i, c)"
    and m': "m' = \<lparr>root = set_parent None t', n = c\<rparr>"
    using assms(4)
    by (cases "insertNode cmp nn (root m) None val (n m)") (auto simp: insert_map_def)
  show ?thesis using insertNode_inv [OF assms(1,2,3) ins] m' by simp
qed

lemma erase_inv:
  assumes "strict_weak_order cmp" "map_inv cmp m" "erase cmp this m pos = Some (res, m')"
  shows "map_inv cmp m'"
  using assms(3)
proof (cases rule: erase_cases)
  case throw
  then show ?thesis using assms(2) by simp
next
  case (valid ta tv l r p ht t' e' c' fr)
  have "ta \<in> set (addrs (root m))" using node_at_in_entries [OF valid(3)]
    by (rule entries_in_addrs)
  then obtain sa sv sl sr sp sh where f: "freed_by_erase (root m) ta = Node sa sv sl sr sp sh"
    using freed_by_erase_exists by blast
  show ?thesis
    using eraseByNode_inv(1) [OF assms(1,2) node_at_in_entries [OF valid(3)] valid(4) f]
      valid(5) by simp
qed

lemma index_rw_inv:
  assumes "strict_weak_order cmp" "map_inv cmp m" "nn \<notin> set (addrs (root m))"
    and "index_rw cmp nn dflt m key = Some (res, m')"
  shows "map_inv cmp m'"
proof (cases "findNode cmp (root m) key")
  case (Node a v l r p ht)
  then show ?thesis using assms(2,4) by (simp add: index_rw_def)
next
  case Null
  then obtain t' b i c where
    ins: "insertNode cmp nn (root m) None (key, dflt) (n m) = Some (t', b, i, c)"
    and m': "m' = \<lparr>root = set_parent None t', n = c\<rparr>"
    using assms(4)
    by (cases "insertNode cmp nn (root m) None (key, dflt) (n m)")
      (auto simp: index_rw_def Let_def split: option.splits node.splits)
  show ?thesis using insertNode_inv [OF assms(1,2,3) ins] m' by simp
qed

subsection \<open>The cached height fits a C++ \<open>int\<close>\<close>

text \<open>
  A balanced tree of height \<open>k\<close> has at least \<open>2 ^ (k div 2) - 1\<close> nodes, so with fewer
  than \<open>2 ^ 64\<close> nodes no height computed by \<open>upd\<close> leaves the range of \<open>int\<close>.
\<close>

lemma half_height_bound:
  fixes a b :: nat
  assumes "b \<le> Suc a" "a \<le> Suc b"
  shows "Suc (max a b) div 2 \<le> Suc (a div 2)" "Suc (max a b) div 2 \<le> Suc (b div 2)"
  using assms by (simp_all add: max_def) presburger+

lemma avl_size_bound:
  "avl t \<Longrightarrow> 2 ^ (nat (height t) div 2) \<le> length (addrs t) + 1"
proof (induction t)
  case Null
  then show ?case by simp
next
  case (Node a v l r p ht)
  have A: "avl l" "avl r" "\<bar>height l - height r\<bar> \<le> 1" using Node.prems by auto
  obtain kl kr where k: "height l = int kl" "height r = int kr"
    by (metis height_nonneg nonneg_int_cases)
  have "height (Node a v l r p ht) = int (Suc (max kl kr))" using k by simp
  then have h: "nat (height (Node a v l r p ht)) = Suc (max kl kr)" by (simp only: nat_int)
  have near: "kr \<le> Suc kl" "kl \<le> Suc kr" using A(3) k by simp_all
  have "(2::nat) ^ (Suc (max kl kr) div 2) \<le> 2 ^ Suc (kl div 2)"
    "(2::nat) ^ (Suc (max kl kr) div 2) \<le> 2 ^ Suc (kr div 2)"
    using half_height_bound [OF near]
    by (simp_all only: power_increasing_iff one_less_numeral_iff semiring_norm)
  then have "2 * (2::nat) ^ (Suc (max kl kr) div 2) \<le> 2 * 2 ^ (kl div 2) + 2 * 2 ^ (kr div 2)"
    by simp
  then have "(2::nat) ^ (Suc (max kl kr) div 2) \<le> 2 ^ (kl div 2) + 2 ^ (kr div 2)" by simp
  also have "\<dots> \<le> (length (addrs l) + 1) + (length (addrs r) + 1)"
    using Node.IH(1) [OF A(1)] Node.IH(2) [OF A(2)] k by (simp only: nat_int add_mono)
  finally show ?case unfolding h by simp
qed

lemma avl_height_int_range:
  assumes "avl t" "length (addrs t) < 2 ^ 64"
  shows "height t < 2 ^ 31"
proof -
  have "(2::nat) ^ (nat (height t) div 2) \<le> length (addrs t) + 1" using assms(1) by (rule avl_size_bound)
  also have "\<dots> \<le> 2 ^ 64" using assms(2) by simp
  finally have "nat (height t) div 2 \<le> 64"
    by (simp only: power_increasing_iff one_less_numeral_iff semiring_norm)
  then have "height t \<le> 129" by linarith
  then show ?thesis by simp
qed

subsection \<open>Finding and erasing a stored key\<close>

lemma find_then_erase:
  assumes swo: "strict_weak_order cmp" and inv: "map_inv cmp m"
    and e: "(a, kv) \<in> set (entries (root m))" and q: "equivalent cmp (fst kv) k"
  shows "find_map cmp this m k = \<lparr>cur = Some a, owner = Some this\<rparr> \<and>
         star m \<lparr>cur = Some a, owner = Some this\<rparr> = Some (Inr kv) \<and>
         (\<exists>fr m2. erase cmp this m \<lparr>cur = Some a, owner = Some this\<rparr> = Some (Inr fr, m2) \<and>
            find_map cmp this m2 k = end_it this m2 \<and> map_inv cmp m2)"
proof -
  have I: "bst cmp (root m)" "distinct (addrs (root m))"
    using inv by (simp_all add: map_inv_def)
  obtain l r p ht where f: "findNode cmp (root m) k = Node a kv l r p ht"
    using findNode_unique [OF swo I(1) e q] by blast
  then have 1: "find_map cmp this m k = \<lparr>cur = Some a, owner = Some this\<rparr>"
    by (simp add: find_map_def)
  obtain l' r' p' ht' where nd: "node_at (root m) a = Node a kv l' r' p' ht'"
    using node_at_entries [OF I(2) e] by blast
  then have 2: "star m \<lparr>cur = Some a, owner = Some this\<rparr> = Some (Inr kv)"
    by (simp add: star_def)
  have "a \<in> set (addrs (root m))" using e by (rule entries_in_addrs)
  then obtain sa sv sl sr sp sh where fb: "freed_by_erase (root m) a = Node sa sv sl sr sp sh"
    using freed_by_erase_exists by blast
  have p: "owner \<lparr>cur = Some a, owner = Some this\<rparr> = Some this"
    "cur \<lparr>cur = Some a, owner = Some this\<rparr> = Some a" by simp_all
  obtain m2 where m2: "erase cmp this m \<lparr>cur = Some a, owner = Some this\<rparr> = Some (Inr [sa], m2)"
    "map_inv cmp m2"
    "inorder (root m2) = map snd (filter (\<lambda>x. fst x \<noteq> a) (entries (root m)))"
    using erase_valid [OF swo inv p nd fb] by blast
  have "\<forall>x\<in>set (keys (root m2)). \<not> equivalent cmp x k"
  proof
    fix x assume "x \<in> set (keys (root m2))"
    then have "x \<in> fst ` set (inorder (root m2))" by (simp add: keys_def)
    then obtain a' kv' where x: "(a', kv') \<in> set (entries (root m))" "a' \<noteq> a" "x = fst kv'"
      unfolding m2(3) by auto
    show "\<not> equivalent cmp x k"
    proof
      assume "equivalent cmp x k"
      then have "a' = a" using entry_unique [OF swo I(1) e q x(1)] x(3) by simp
      then show False using x(2) by simp
    qed
  qed
  moreover have "bst cmp (root m2)" using m2(2) by (simp add: map_inv_def)
  ultimately have "findNode cmp (root m2) k = Null"
    using findNode_Null_iff [OF swo, of "root m2" k] by simp
  then have 3: "find_map cmp this m2 k = end_it this m2"
    by (simp add: find_map_def end_it_def)
  show ?thesis using 1 2 3 m2(1,2) by blast
qed

section \<open>The claims\<close>

text \<open>
  C1. Erasing a position whose node has two children: the leftmost node \<open>sa\<close> of the
  right subtree is the in-order successor of the target \<open>ta\<close>; afterwards the node at
  address \<open>ta\<close> is still in the tree, at the same place in the order, and stores the
  pair of the successor; the one address handed to \<open>delete\<close> is \<open>sa\<close>; nothing else
  changes in the in-order list, and the count goes down by one.
\<close>

theorem erase_two_children:
  assumes "strict_weak_order cmp" and "map_inv cmp m"
    and "owner pos = Some this" and "cur pos = Some ta"
    and "node_at (root m) ta = Node ta tv l r p ht" and "l \<noteq> Null" and "r \<noteq> Null"
    and "minNode r = Node sa sv sl sr sp sh"
  shows "\<exists>m' xs ys. erase cmp this m pos = Some (Inr [sa], m') \<and>
           entries (root m) = xs @ (ta, tv) # (sa, sv) # ys \<and>
           entries (root m') = xs @ (ta, sv) # ys \<and> sa \<noteq> ta \<and>
           n m' = n m - 1 \<and> length (addrs (root m')) + 1 = length (addrs (root m)) \<and>
           map_inv cmp m'"
proof -
  obtain xs0 ys0 where seg: "entries (root m) = xs0 @ entries l @ (ta, tv) # entries r @ ys0"
    using node_at_segment [OF assms(5)] by blast
  obtain rest where r: "entries r = (sa, sv) # rest"
    using minNode_entries [OF assms(7)] assms(8) by auto
  let ?xs = "xs0 @ entries l" and ?ys = "rest @ ys0"
  have e: "entries (root m) = ?xs @ (ta, tv) # (sa, sv) # ?ys" using seg r by simp
  have "distinct (addrs (root m))" using assms(2) by (simp add: map_inv_def)
  then have "distinct (map fst (entries (root m)))" by simp
  then have d: "distinct (map fst (?xs @ (ta, tv) # (sa, sv) # ?ys))" unfolding e .
  then have ne: "sa \<noteq> ta" by auto
  have f: "freed_by_erase (root m) ta = Node sa sv sl sr sp sh"
    using assms(5,6,7,8) by (simp add: freed_by_erase_def)
  obtain m' where m': "erase cmp this m pos = Some (Inr [sa], m')" "map_inv cmp m'"
    "n m' = n m - 1"
    "entries (root m') = map (\<lambda>(b, v). if b = ta then (b, sv) else (b, v))
                   (filter (\<lambda>x. fst x \<noteq> sa) (entries (root m)))"
    "length (addrs (root m')) + 1 = length (addrs (root m))"
    using erase_valid [OF assms(1,2,3,4,5) f] by blast
  have "entries (root m') = ?xs @ (ta, sv) # ?ys"
    using m'(4) successor_copy_entries [OF d] unfolding e by (simp only:)
  then show ?thesis using m'(1,2,3,5) e ne by blast
qed

theorem erase_two_children_witness:
  "strict_weak_order ((<) :: int \<Rightarrow> int \<Rightarrow> bool) \<and> map_inv (<) ex_map \<and>
   node_at (root ex_map) 1 =
     Node 1 (5, 50) (Node 2 (3, 30) Null Null (Some 1) 1)
       (Node 3 (8, 80) Null Null (Some 1) 1) None 2 \<and>
   minNode (Node 3 (8, 80) Null Null (Some 1) 1 :: (int, int) node) =
     Node 3 (8, 80) Null Null (Some 1) 1 \<and>
   (\<exists>m' xs ys. erase (<) 0 ex_map \<lparr>cur = Some 1, owner = Some 0\<rparr> = Some (Inr [3], m') \<and>
      entries (root ex_map) = xs @ (1, (5, 50)) # (3, (8, 80)) # ys \<and>
      entries (root m') = xs @ (1, (8, 80)) # ys \<and> (3 :: nat) \<noteq> 1 \<and>
      n m' = n ex_map - 1 \<and> length (addrs (root m')) + 1 = length (addrs (root ex_map)) \<and>
      map_inv (<) m')"
proof -
  have 1: "strict_weak_order ((<) :: int \<Rightarrow> int \<Rightarrow> bool)" by (rule int_less_swo)
  have 2: "map_inv (<) ex_map" by (rule ex_map_inv)
  have 3: "owner \<lparr>cur = Some 1, owner = Some 0\<rparr> = Some 0"
    "cur \<lparr>cur = Some 1, owner = Some 0\<rparr> = Some 1" by simp_all
  have 4: "node_at (root ex_map) 1 =
     Node 1 (5, 50) (Node 2 (3, 30) Null Null (Some 1) 1)
       (Node 3 (8, 80) Null Null (Some 1) 1) None 2" by (simp add: ex_map_def)
  have 5: "(Node 2 (3, 30) Null Null (Some 1) 1 :: (int, int) node) \<noteq> Null"
    "(Node 3 (8, 80) Null Null (Some 1) 1 :: (int, int) node) \<noteq> Null" by simp_all
  have 6: "minNode (Node 3 (8, 80) Null Null (Some 1) 1 :: (int, int) node) =
     Node 3 (8, 80) Null Null (Some 1) 1" by simp
  show ?thesis using 1 2 4 6 erase_two_children [OF 1 2 3 4 5 6] by simp
qed

text \<open>
  C2. Each public operation that changes or creates a map leaves a tree in which, at
  every node, the heights of the two subtrees differ by at most one and the cached
  height is one more than the greater of the true heights of the children (the
  predicate \<open>avl\<close>), given that the maps it starts from have that property. \<open>insert\<close>
  and \<open>operator[]\<close> always complete; \<open>erase\<close> completes unless its position is a
  dangling pointer.
\<close>

theorem balance_after_every_operation:
  assumes "avl (root m)" and "avl (root other)"
  shows "(\<exists>r m'. insert_map cmp this nn m val = Some (r, m') \<and> avl (root m')) \<and>
         (\<forall>r m'. erase cmp this m pos = Some (r, m') \<longrightarrow> avl (root m')) \<and>
         (erase cmp this m pos = None \<longrightarrow> (\<exists>a. cur pos = Some a \<and> a \<notin> set (addrs (root m)))) \<and>
         (\<exists>r m'. index_rw cmp nn dflt m key = Some (r, m') \<and> avl (root m')) \<and>
         avl (root (map_copy f other)) \<and>
         avl (root (fst (assign f this m other_addr other))) \<and>
         avl (root (fst (clear m)))"
proof (intro conjI allI impI)
  show "\<exists>r m'. insert_map cmp this nn m val = Some (r, m') \<and> avl (root m')"
    using assms(1) by (rule insert_map_avl)
  show "\<exists>r m'. index_rw cmp nn dflt m key = Some (r, m') \<and> avl (root m')"
    using assms(1) by (rule index_rw_avl)
  show "avl (root (map_copy f other))" using assms(2) by (simp add: map_copy_def)
  show "avl (root (fst (assign f this m other_addr other)))"
    using assms by (simp add: assign_def)
  show "avl (root (fst (clear m)))" by (simp add: clear_def)
next
  fix r m' assume "erase cmp this m pos = Some (r, m')"
  then show "avl (root m')" using erase_avl [OF assms(1)] by blast
next
  assume "erase cmp this m pos = None"
  then show "\<exists>a. cur pos = Some a \<and> a \<notin> set (addrs (root m))"
    using erase_None [OF assms(1)] by blast
qed

theorem balance_after_every_operation_witness:
  "avl (root ex_map) \<and>
   (\<exists>r m'. insert_map (<) 0 7 ex_map (4, 40) = Some (r, m') \<and> avl (root m')) \<and>
   erase (<) 0 ex_map \<lparr>cur = Some 1, owner = Some 0\<rparr> =
     Some (Inr [3],
       \<lparr>root = Node 1 (8, 80) (Node 2 (3, 30) Null Null (Some 1) 1) Null None 2, n = 2\<rparr>) \<and>
   avl (Node 1 (8 :: int, 80 :: int) (Node 2 (3, 30) Null Null (Some 1) 1) Null None 2) \<and>
   (\<exists>r m'. index_rw (<) 7 0 ex_map 4 = Some (r, m') \<and> avl (root m')) \<and>
   avl (root (map_copy (\<lambda>a. a + 10) ex_map)) \<and>
   avl (root (fst (assign (\<lambda>a. a + 10) 0 map_default 1 ex_map))) \<and>
   avl (root (fst (clear ex_map)))"
proof -
  have 1: "avl (root ex_map)" by (simp add: ex_map_def)
  have 2: "avl (root (map_default :: (int, int) map_state))" by (simp add: map_default_def)
  have 3: "erase (<) 0 ex_map \<lparr>cur = Some 1, owner = Some 0\<rparr> =
     Some (Inr [3],
       \<lparr>root = Node 1 (8, 80) (Node 2 (3, 30) Null Null (Some 1) 1) Null None 2, n = 2\<rparr>)"
    by (simp add: erase_def ex_map_def rebalance.simps)
  note A = balance_after_every_operation [OF 1 1, of "(<)" 0 7 "(4, 40)"
      "\<lparr>cur = Some 1, owner = Some 0\<rparr>" 0 4 "\<lambda>a. a + 10" 1]
  note B = balance_after_every_operation [OF 2 1, of "(<)" 0 7 "(4, 40)"
      "\<lparr>cur = Some 1, owner = Some 0\<rparr>" 0 4 "\<lambda>a. a + 10" 1]
  have 4: "avl (Node 1 (8 :: int, 80 :: int) (Node 2 (3, 30) Null Null (Some 1) 1) Null None 2)"
    using A 3 by simp
  show ?thesis using 1 3 4 A B by simp
qed

text \<open>
  C3. After any sequence of insertions and erasures that starts from the empty map, the
  keys read in order are strictly ascending under the comparator, each key comparing
  before every later one; hence no two nodes hold equivalent keys.
\<close>

theorem order_after_every_sequence:
  assumes "strict_weak_order cmp" and "run cmp this ops map_default = Some m"
  shows "sorted_wrt cmp (keys (root m)) \<and>
         (\<forall>i j. i < j \<and> j < length (keys (root m)) \<longrightarrow>
            \<not> equivalent cmp (keys (root m) ! i) (keys (root m) ! j))"
proof -
  have "map_inv cmp m" using run_inv [OF assms(1) map_default_inv assms(2)] .
  then have s: "sorted_wrt cmp (keys (root m))" by (simp add: map_inv_def bst_def)
  then show ?thesis using sorted_wrt_no_equivalent [OF s] by blast
qed

theorem order_after_every_sequence_witness:
  "strict_weak_order ((<) :: int \<Rightarrow> int \<Rightarrow> bool) \<and>
   run ((<) :: int \<Rightarrow> int \<Rightarrow> bool) 0
     [Insert 1 (5, 50 :: int), Insert 2 (3, 30), Insert 3 (8, 80), Insert 4 (9, 90),
              Insert 5 (10, 100), Erase \<lparr>cur = Some 3, owner = Some 0\<rparr>,
              Erase \<lparr>cur = None, owner = Some 0\<rparr>] map_default =
     Some \<lparr>root = Node 1 (5, 50) (Node 2 (3, 30) Null Null (Some 1) 1)
                   (Node 4 (9, 90) Null (Node 5 (10, 100) Null Null (Some 4) 1) (Some 1) 2)
                   None 3, n = 4\<rparr> \<and>
   sorted_wrt (<) (keys (Node 1 (5 :: int, 50 :: int) (Node 2 (3, 30) Null Null (Some 1) 1)
                   (Node 4 (9, 90) Null (Node 5 (10, 100) Null Null (Some 4) 1) (Some 1) 2)
                   None 3))"
proof -
  have 1: "strict_weak_order ((<) :: int \<Rightarrow> int \<Rightarrow> bool)" by (rule int_less_swo)
  have 2: "run ((<) :: int \<Rightarrow> int \<Rightarrow> bool) 0
     [Insert 1 (5, 50 :: int), Insert 2 (3, 30), Insert 3 (8, 80), Insert 4 (9, 90),
              Insert 5 (10, 100), Erase \<lparr>cur = Some 3, owner = Some 0\<rparr>,
              Erase \<lparr>cur = None, owner = Some 0\<rparr>] map_default =
     Some \<lparr>root = Node 1 (5 :: int, 50 :: int) (Node 2 (3, 30) Null Null (Some 1) 1)
                   (Node 4 (9, 90) Null (Node 5 (10, 100) Null Null (Some 4) 1) (Some 1) 2)
                   None 3, n = 4\<rparr>"
    by code_simp
  have "sorted_wrt (<) (keys (root \<lparr>root = Node 1 (5 :: int, 50 :: int)
                   (Node 2 (3, 30) Null Null (Some 1) 1)
                   (Node 4 (9, 90) Null (Node 5 (10, 100) Null Null (Some 4) 1) (Some 1) 2)
                   None 3, n = 4\<rparr>))"
    using order_after_every_sequence [OF 1 2] by (rule conjunct1)
  then have 3: "sorted_wrt (<) (keys (Node 1 (5 :: int, 50 :: int)
                   (Node 2 (3, 30) Null Null (Some 1) 1)
                   (Node 4 (9, 90) Null (Node 5 (10, 100) Null Null (Some 4) 1) (Some 1) 2)
                   None 3))"
    by (simp only: map_state.select_convs)
  show ?thesis by (intro conjI) (rule 1 2 3)+
qed

text \<open>
  C4. Inserting a pair whose key is equivalent to a key already stored at node \<open>a\<close>
  returns the position of that node with the flag \<open>false\<close>, and the state of the map
  after the call is the state before it: the count, the shape of the tree, and every
  stored key and value, the value at \<open>a\<close> included.
\<close>

theorem duplicate_insert_unchanged:
  assumes "strict_weak_order cmp" and "map_inv cmp m"
    and "(a, kv) \<in> set (entries (root m))" and "equivalent cmp (fst kv) (fst val)"
  shows "insert_map cmp this nn m val =
           Some ((\<lparr>cur = Some a, owner = Some this\<rparr>, False), m) \<and>
         star m \<lparr>cur = Some a, owner = Some this\<rparr> = Some (Inr kv)"
proof -
  have "distinct (addrs (root m))" using assms(2) by (simp add: map_inv_def)
  then obtain l r p ht where "node_at (root m) a = Node a kv l r p ht"
    using node_at_entries assms(3) by blast
  then have "star m \<lparr>cur = Some a, owner = Some this\<rparr> = Some (Inr kv)"
    by (simp add: star_def)
  then show ?thesis using insert_map_present [OF assms] by simp
qed

theorem duplicate_insert_unchanged_witness:
  "strict_weak_order ((<) :: int \<Rightarrow> int \<Rightarrow> bool) \<and> map_inv (<) ex_map \<and>
   (1, (5, 50)) \<in> set (entries (root ex_map)) \<and>
   equivalent (<) (fst (5 :: int, 50 :: int)) (fst (5 :: int, 99 :: int)) \<and>
   insert_map (<) 0 7 ex_map (5, 99) =
     Some ((\<lparr>cur = Some 1, owner = Some 0\<rparr>, False), ex_map) \<and>
   star ex_map \<lparr>cur = Some 1, owner = Some 0\<rparr> = Some (Inr (5, 50))"
proof -
  have 1: "strict_weak_order ((<) :: int \<Rightarrow> int \<Rightarrow> bool)" by (rule int_less_swo)
  have 2: "map_inv (<) ex_map" by (rule ex_map_inv)
  have 3: "(1, (5, 50)) \<in> set (entries (root ex_map))" by (simp add: ex_map_def)
  have 4: "equivalent (<) (fst (5 :: int, 50 :: int)) (fst (5 :: int, 99 :: int))"
    by (simp add: equivalent_def)
  show ?thesis using 1 2 3 4 duplicate_insert_unchanged [OF 1 2 3 4, of 0 7] by simp
qed

text \<open>
  C5, as the code has it. \<open>insert\<close> followed by \<open>find\<close> on the same key returns the
  position that \<open>insert\<close> returned. If no equivalent key was stored before, the pair
  found there is the inserted pair; if one was stored, \<open>insert\<close> reports \<open>false\<close> and
  the pair found is the one stored before, whose value is kept. In both cases, erasing
  that position and calling \<open>find\<close> on the key again returns the past-the-end iterator.
\<close>

theorem insert_find_erase_round_trip:
  assumes "strict_weak_order cmp" and "map_inv cmp m" and "nn \<notin> set (addrs (root m))"
  shows "\<exists>it b m1 kv fr m2.
           insert_map cmp this nn m val = Some ((it, b), m1) \<and>
           find_map cmp this m1 (fst val) = it \<and>
           star m1 it = Some (Inr kv) \<and>
           (b = (\<forall>x\<in>set (keys (root m)). \<not> equivalent cmp x (fst val))) \<and>
           (b \<longrightarrow> kv = val) \<and>
           (\<not> b \<longrightarrow> m1 = m \<and> kv \<in> set (inorder (root m))) \<and>
           erase cmp this m1 it = Some (Inr fr, m2) \<and>
           find_map cmp this m2 (fst val) = end_it this m2"
proof (cases "\<forall>x\<in>set (keys (root m)). \<not> equivalent cmp x (fst val)")
  case True
  obtain m1 where m1: "insert_map cmp this nn m val =
      Some ((\<lparr>cur = Some nn, owner = Some this\<rparr>, True), m1)" "map_inv cmp m1"
    "mset (entries (root m1)) = mset (entries (root m)) + {#(nn, val)#}"
    using insert_map_absent [OF assms True] by blast
  have "set_mset (mset (entries (root m1))) = set_mset (mset (entries (root m)) + {#(nn, val)#})"
    by (simp only: m1(3))
  then have e: "(nn, val) \<in> set (entries (root m1))" by simp
  have q: "equivalent cmp (fst val) (fst val)"
    using swo_irrefl [OF assms(1)] by (simp add: equivalent_def)
  note F = find_then_erase [OF assms(1) m1(2) e q, of this]
  then obtain fr m2 where
    "erase cmp this m1 \<lparr>cur = Some nn, owner = Some this\<rparr> = Some (Inr fr, m2)"
    "find_map cmp this m2 (fst val) = end_it this m2" by blast
  then show ?thesis using m1(1) F True
    by (intro exI [of _ "\<lparr>cur = Some nn, owner = Some this\<rparr>"] exI [of _ True] exI [of _ m1]
        exI [of _ val] exI [of _ fr] exI [of _ m2]) simp
next
  case False
  then obtain x where "x \<in> set (keys (root m))" "equivalent cmp x (fst val)" by blast
  then obtain a kv where e: "(a, kv) \<in> set (entries (root m))" and q: "equivalent cmp (fst kv) (fst val)"
    by (auto simp: set_keys_entries)
  have i: "insert_map cmp this nn m val = Some ((\<lparr>cur = Some a, owner = Some this\<rparr>, False), m)"
    using insert_map_present [OF assms(1,2) e q] .
  note F = find_then_erase [OF assms(1,2) e q, of this]
  then obtain fr m2 where
    "erase cmp this m \<lparr>cur = Some a, owner = Some this\<rparr> = Some (Inr fr, m2)"
    "find_map cmp this m2 (fst val) = end_it this m2" by blast
  moreover have "kv \<in> set (inorder (root m))" using e by (metis map_snd_entries image_eqI set_map snd_conv)
  ultimately show ?thesis using i F False
    by (intro exI [of _ "\<lparr>cur = Some a, owner = Some this\<rparr>"] exI [of _ False] exI [of _ m]
        exI [of _ kv] exI [of _ fr] exI [of _ m2]) simp
qed

theorem insert_find_erase_round_trip_witness:
  "strict_weak_order ((<) :: int \<Rightarrow> int \<Rightarrow> bool) \<and> map_inv (<) ex_map \<and>
   7 \<notin> set (addrs (root ex_map)) \<and>
   (\<exists>it m1 fr m2.
           insert_map (<) 0 7 ex_map (4, 40) = Some ((it, True), m1) \<and>
           find_map (<) 0 m1 4 = it \<and>
           star m1 it = Some (Inr (4, 40)) \<and>
           erase (<) 0 m1 it = Some (Inr fr, m2) \<and>
           find_map (<) 0 m2 4 = end_it 0 m2)"
proof -
  have 1: "strict_weak_order ((<) :: int \<Rightarrow> int \<Rightarrow> bool)" by (rule int_less_swo)
  have 2: "map_inv (<) ex_map" by (rule ex_map_inv)
  have 3: "7 \<notin> set (addrs (root ex_map))" by (simp add: ex_map_def)
  have 4: "\<forall>x\<in>set (keys (root ex_map)). \<not> equivalent (<) x (fst (4 :: int, 40 :: int))"
    by (simp add: ex_map_def equivalent_def)
  obtain it b m1 kv fr m2 where r:
    "insert_map (<) 0 7 ex_map (4, 40) = Some ((it, b), m1)"
    "find_map (<) 0 m1 (fst (4 :: int, 40 :: int)) = it"
    "star m1 it = Some (Inr kv)"
    "b = (\<forall>x\<in>set (keys (root ex_map)). \<not> equivalent (<) x (fst (4 :: int, 40 :: int)))"
    "b \<longrightarrow> kv = (4, 40)"
    "erase (<) 0 m1 it = Some (Inr fr, m2)"
    "find_map (<) 0 m2 (fst (4 :: int, 40 :: int)) = end_it 0 m2"
    using insert_find_erase_round_trip [OF 1 2 3, of 0 "(4, 40)"] by blast
  have b: "b" using r(4) 4 by simp
  then have kv: "kv = (4, 40)" using r(5) by simp
  have "insert_map (<) 0 7 ex_map (4, 40) = Some ((it, True), m1) \<and>
           find_map (<) 0 m1 4 = it \<and>
           star m1 it = Some (Inr (4, 40)) \<and>
           erase (<) 0 m1 it = Some (Inr fr, m2) \<and>
           find_map (<) 0 m2 4 = end_it 0 m2"
    using r(1,2,3,6,7) b kv by simp
  then have "\<exists>it m1 fr m2.
           insert_map (<) 0 7 ex_map (4, 40) = Some ((it, True), m1) \<and>
           find_map (<) 0 m1 4 = it \<and>
           star m1 it = Some (Inr (4, 40)) \<and>
           erase (<) 0 m1 it = Some (Inr fr, m2) \<and>
           find_map (<) 0 m2 4 = end_it 0 m2" by blast
  then show ?thesis using 1 2 3 by blast
qed

theorem insert_existing_key_counterexample:
  "insert_map (<) 0 7 ex_map (5, 99) =
     Some ((\<lparr>cur = Some 1, owner = Some 0\<rparr>, False), ex_map) \<and>
   find_map (<) 0 ex_map 5 = \<lparr>cur = Some 1, owner = Some 0\<rparr> \<and>
   star ex_map \<lparr>cur = Some 1, owner = Some 0\<rparr> = Some (Inr (5, 50)) \<and>
   snd (5 :: int, 50 :: int) \<noteq> snd (5 :: int, 99 :: int)"
  by (simp add: insert_map_def find_map_def star_def ex_map_def rebalance.simps)

text \<open>
  C6. \<open>at(key)\<close> throws \<open>index_out_of_bound\<close> exactly when no stored key is equivalent
  to \<open>key\<close>; otherwise it returns the value stored with the equivalent key. Whatever the
  outcome, the state of the map after the call is the state before it, so the invariants
  still hold; no other exception is thrown. The \<open>const\<close> form has the same outcome.
\<close>

theorem at_out_of_bound_iff:
  assumes "strict_weak_order cmp" and "map_inv cmp m"
  shows "((fst (at cmp m key) = Inl index_out_of_bound) =
            (\<forall>x\<in>set (keys (root m)). \<not> equivalent cmp x key)) \<and>
         snd (at cmp m key) = m \<and> map_inv cmp (snd (at cmp m key)) \<and>
         fst (at cmp m key) \<noteq> Inl invalid_iterator \<and>
         at_const cmp m key = fst (at cmp m key) \<and>
         (\<forall>a v. fst (at cmp m key) = Inr (a, v) \<longrightarrow>
            (\<exists>k. (a, (k, v)) \<in> set (entries (root m)) \<and> equivalent cmp k key))"
proof (cases "findNode cmp (root m) key")
  case Null
  have "bst cmp (root m)" using assms(2) by (simp add: map_inv_def)
  then have "\<forall>x\<in>set (keys (root m)). \<not> equivalent cmp x key"
    using findNode_Null_iff [OF assms(1), of "root m" key] Null by simp
  then show ?thesis using Null assms(2) by (simp add: at_def at_const_def)
next
  case (Node a v l r p ht)
  then have e: "(a, v) \<in> set (entries (root m))" "equivalent cmp (fst v) key"
    using findNode_entry [of cmp "root m" key a v l r p ht] by simp_all
  then have "fst v \<in> set (keys (root m))" by (auto dest: entries_in_keys)
  then have "\<not> (\<forall>x\<in>set (keys (root m)). \<not> equivalent cmp x key)" using e(2) by blast
  moreover have "\<exists>k. (a, (k, snd v)) \<in> set (entries (root m)) \<and> equivalent cmp k key"
    using e by (intro exI [of _ "fst v"]) simp
  ultimately show ?thesis using Node assms(2) by (simp add: at_def at_const_def)
qed

theorem at_out_of_bound_iff_witness:
  "strict_weak_order ((<) :: int \<Rightarrow> int \<Rightarrow> bool) \<and> map_inv (<) ex_map \<and>
   keys (root ex_map) = [3, 5, 8] \<and>
   \<not> equivalent (<) (3 :: int) 4 \<and> \<not> equivalent (<) (5 :: int) 4 \<and>
   \<not> equivalent (<) (8 :: int) 4 \<and>
   at (<) ex_map 4 = (Inl index_out_of_bound, ex_map) \<and>
   equivalent (<) (3 :: int) 3 \<and>
   at (<) ex_map 3 = (Inr (2, 30), ex_map) \<and> map_inv (<) (snd (at (<) ex_map 4))"
proof -
  have 1: "strict_weak_order ((<) :: int \<Rightarrow> int \<Rightarrow> bool)" by (rule int_less_swo)
  have 2: "map_inv (<) ex_map" by (rule ex_map_inv)
  have 3: "keys (root ex_map) = [3, 5, 8]" by (simp add: ex_map_def)
  have 4: "\<not> equivalent (<) (3 :: int) 4" "\<not> equivalent (<) (5 :: int) 4"
    "\<not> equivalent (<) (8 :: int) 4" "equivalent (<) (3 :: int) 3"
    by (simp_all add: equivalent_def)
  note A = at_out_of_bound_iff [OF 1 2, of 4]
  note B = at_out_of_bound_iff [OF 1 2, of 3]
  have a: "fst (at (<) ex_map 4) = Inl index_out_of_bound" "snd (at (<) ex_map 4) = ex_map"
    "map_inv (<) (snd (at (<) ex_map 4))"
    using A 2 3 4 by simp_all
  have "fst (at (<) ex_map 3) \<noteq> Inl index_out_of_bound" "snd (at (<) ex_map 3) = ex_map"
    using B 3 4 by simp_all
  moreover have "fst (at (<) ex_map 3) = Inr (2, 30)" by (simp add: at_def ex_map_def)
  ultimately have b: "at (<) ex_map 3 = (Inr (2, 30), ex_map)" by (simp add: prod_eq_iff)
  have a': "at (<) ex_map 4 = (Inl index_out_of_bound, ex_map)" using a by (simp add: prod_eq_iff)
  show ?thesis by (intro conjI) (rule 1 2 3 4 a' b a(3))+
qed

text \<open>
  C7. The read-write \<open>operator[]\<close> on a key with no equivalent in the map allocates one
  node, stores the key with the value \<open>T()\<close> there and returns a reference to that
  value; the count grows by one and nothing else is added. On a key with an equivalent
  stored at node \<open>a\<close> it returns the value stored there and the state of the map is as
  before. The read-only form returns no new state at all; it throws
  \<open>index_out_of_bound\<close> on an absent key and returns the stored value on a present one.
\<close>

theorem index_access:
  assumes "strict_weak_order cmp" and "map_inv cmp m" and "nn \<notin> set (addrs (root m))"
  shows "((\<forall>x\<in>set (keys (root m)). \<not> equivalent cmp x key) \<longrightarrow>
            (\<exists>m'. index_rw cmp nn dflt m key = Some ((nn, dflt), m') \<and> n m' = n m + 1 \<and>
               mset (entries (root m')) = mset (entries (root m)) + {#(nn, (key, dflt))#} \<and>
               map_inv cmp m') \<and>
            index_const cmp m key = Inl index_out_of_bound) \<and>
         (\<forall>a k v. (a, (k, v)) \<in> set (entries (root m)) \<and> equivalent cmp k key \<longrightarrow>
            index_rw cmp nn dflt m key = Some ((a, v), m) \<and>
            index_const cmp m key = Inr (a, v))"
proof (intro conjI impI allI)
  assume ab: "\<forall>x\<in>set (keys (root m)). \<not> equivalent cmp x key"
  have "bst cmp (root m)" using assms(2) by (simp add: map_inv_def)
  then have f: "findNode cmp (root m) key = Null"
    using findNode_Null_iff [OF assms(1), of "root m" key] ab by simp
  show "index_const cmp m key = Inl index_out_of_bound" using f by (simp add: index_const_def)
  have ab': "\<forall>x\<in>set (keys (root m)). \<not> equivalent cmp x (fst (key, dflt))" using ab by simp
  have I: "bst cmp (root m)" "avl (root m)" using assms(2) by (simp_all add: map_inv_def)
  obtain t' b i c where
    ins: "insertNode cmp nn (root m) None (key, dflt) (n m) = Some (t', b, Some i, c)"
    using insertNode_avl [OF I(2)] by blast
  have b: "b" using insertNode_flag [OF swo_transp [OF assms(1)] I(1) ins] ab' by blast
  note E = insertNode_entries [OF ins]
  have i: "i = nn" and c: "c = n m + 1" using E b by simp_all
  have ms: "mset (entries t') = mset (entries (root m)) + {#(nn, (key, dflt))#}"
    using E b by simp
  let ?m' = "\<lparr>root = set_parent None t', n = c\<rparr>"
  have inv': "map_inv cmp ?m'" using insertNode_inv [OF assms(1,2,3) ins] .
  have "set_mset (mset (entries t')) = set_mset (mset (entries (root m)) + {#(nn, (key, dflt))#})"
    by (simp only: ms)
  then have "(nn, (key, dflt)) \<in> set (entries t')" by simp
  moreover have "distinct (addrs t')" using inv' by (simp add: map_inv_def)
  ultimately have "(nn, (key, dflt)) \<in> set (entries (set_parent None t'))"
    "distinct (addrs (set_parent None t'))" by simp_all
  then obtain l' r' p' ht' where
    nb: "node_at (set_parent None t') nn = Node nn (key, dflt) l' r' p' ht'"
    using node_at_entries by blast
  have ins': "insertNode cmp nn (root m) None (key, dflt) (n m) = Some (t', True, Some nn, c)"
    using ins b i by simp
  have r: "index_rw cmp nn dflt m key = Some ((nn, dflt), ?m')"
    unfolding index_rw_def f using ins' nb by simp
  have "n ?m' = n m + 1" using c by simp
  moreover have "mset (entries (root ?m')) = mset (entries (root m)) + {#(nn, (key, dflt))#}"
    using ms by simp
  ultimately show "\<exists>m'. index_rw cmp nn dflt m key = Some ((nn, dflt), m') \<and> n m' = n m + 1 \<and>
               mset (entries (root m')) = mset (entries (root m)) + {#(nn, (key, dflt))#} \<and>
               map_inv cmp m'"
    using r inv' by blast
next
  fix a k v
  assume "(a, (k, v)) \<in> set (entries (root m)) \<and> equivalent cmp k key"
  then have e: "(a, (k, v)) \<in> set (entries (root m))" "equivalent cmp (fst (k, v)) key" by simp_all
  have "bst cmp (root m)" using assms(2) by (simp add: map_inv_def)
  then obtain l r p ht where f: "findNode cmp (root m) key = Node a (k, v) l r p ht"
    using findNode_unique [OF assms(1) _ e] by blast
  show "index_rw cmp nn dflt m key = Some ((a, v), m)" using f by (simp add: index_rw_def)
  show "index_const cmp m key = Inr (a, v)" using f by (simp add: index_const_def)
qed

theorem index_access_witness:
  "strict_weak_order ((<) :: int \<Rightarrow> int \<Rightarrow> bool) \<and> map_inv (<) ex_map \<and>
   7 \<notin> set (addrs (root ex_map)) \<and> keys (root ex_map) = [3, 5, 8] \<and>
   \<not> equivalent (<) (3 :: int) 4 \<and> \<not> equivalent (<) (5 :: int) 4 \<and>
   \<not> equivalent (<) (8 :: int) 4 \<and>
   (\<exists>m'. index_rw (<) 7 0 ex_map 4 = Some ((7, 0), m') \<and> n m' = n ex_map + 1 \<and>
      mset (entries (root m')) = mset (entries (root ex_map)) + {#(7, (4, 0))#} \<and>
      map_inv (<) m') \<and>
   index_const (<) ex_map 4 = Inl index_out_of_bound \<and>
   (2, (3, 30)) \<in> set (entries (root ex_map)) \<and> equivalent (<) (3 :: int) 3 \<and>
   index_rw (<) 7 0 ex_map 3 = Some ((2, 30), ex_map) \<and>
   index_const (<) ex_map 3 = Inr (2, 30)"
proof -
  have 1: "strict_weak_order ((<) :: int \<Rightarrow> int \<Rightarrow> bool)" by (rule int_less_swo)
  have 2: "map_inv (<) ex_map" by (rule ex_map_inv)
  have 3: "7 \<notin> set (addrs (root ex_map))" by (simp add: ex_map_def)
  have 4: "\<forall>x\<in>set (keys (root ex_map)). \<not> equivalent (<) x 4"
    by (simp add: ex_map_def equivalent_def)
  have 5: "(2, (3, 30)) \<in> set (entries (root ex_map))" "equivalent (<) (3 :: int) 3"
    by (simp_all add: ex_map_def equivalent_def)
  note A = index_access [OF 1 2 3, of 4 0]
  note B = index_access [OF 1 2 3, of 3 0]
  from A have "(\<forall>x\<in>set (keys (root ex_map)). \<not> equivalent (<) x 4) \<longrightarrow>
     (\<exists>m'. index_rw (<) 7 0 ex_map 4 = Some ((7, 0), m') \<and> n m' = n ex_map + 1 \<and>
      mset (entries (root m')) = mset (entries (root ex_map)) + {#(7, (4, 0))#} \<and>
      map_inv (<) m') \<and>
     index_const (<) ex_map 4 = Inl index_out_of_bound" by (rule conjunct1)
  then have a: "(\<exists>m'. index_rw (<) 7 0 ex_map 4 = Some ((7, 0), m') \<and> n m' = n ex_map + 1 \<and>
      mset (entries (root m')) = mset (entries (root ex_map)) + {#(7, (4, 0))#} \<and>
      map_inv (<) m') \<and>
     index_const (<) ex_map 4 = Inl index_out_of_bound" using 4 by (rule mp)
  from B have "\<forall>a k v. (a, (k, v)) \<in> set (entries (root ex_map)) \<and> equivalent (<) k 3 \<longrightarrow>
      index_rw (<) 7 0 ex_map 3 = Some ((a, v), ex_map) \<and>
      index_const (<) ex_map 3 = Inr (a, v)" by (rule conjunct2)
  then have "(2, (3, 30)) \<in> set (entries (root ex_map)) \<and> equivalent (<) (3 :: int) 3 \<longrightarrow>
      index_rw (<) 7 0 ex_map 3 = Some ((2, 30), ex_map) \<and>
      index_const (<) ex_map 3 = Inr (2, 30)" by (elim allE)
  then have b: "index_rw (<) 7 0 ex_map 3 = Some ((2, 30), ex_map) \<and>
      index_const (<) ex_map 3 = Inr (2, 30)" using 5 by (elim impE) (rule conjI)
  have 6: "keys (root ex_map) = [3, 5, 8]" by (simp add: ex_map_def)
  have 7: "\<not> equivalent (<) (3 :: int) 4" "\<not> equivalent (<) (5 :: int) 4"
    "\<not> equivalent (<) (8 :: int) 4" by (simp_all add: equivalent_def)
  show ?thesis
    by (intro conjI) (rule 1 2 3 5 6 7 a [THEN conjunct1] a [THEN conjunct2] b [THEN conjunct1]
        b [THEN conjunct2])+
qed

text \<open>
  C8. Decrementing an iterator bound to a map, in the prefix and in the postfix form
  (the postfix form also returns the old iterator). From the past-the-end position of a
  non-empty tree the iterator moves to the last node of the in-order traversal, whose
  key every other key compares before. From the first node of the traversal the
  operation throws \<open>invalid_iterator\<close>. From any other node \<open>a\<close> it moves to the node
  just before \<open>a\<close> in the traversal, which \<open>predecessor\<close> finds through the child and
  parent links.
\<close>

theorem iterator_retreat:
  assumes "map_inv cmp m" and "owner it \<noteq> None"
  shows "(cur it = None \<and> root m \<noteq> Null \<longrightarrow>
            (\<exists>pre a k v. entries (root m) = pre @ [(a, (k, v))] \<and>
               (\<forall>e\<in>set pre. cmp (fst (snd e)) k) \<and>
               pre_dec m it = Some (Inr (it\<lparr>cur := Some a\<rparr>)) \<and>
               post_dec m it = Some (Inr (it, it\<lparr>cur := Some a\<rparr>)))) \<and>
         (\<forall>a rest. cur it = Some a \<and> addrs (root m) = a # rest \<longrightarrow>
            pre_dec m it = Some (Inl invalid_iterator) \<and>
            post_dec m it = Some (Inl invalid_iterator)) \<and>
         (\<forall>xs b a ys. cur it = Some a \<and> addrs (root m) = xs @ b # a # ys \<longrightarrow>
            pre_dec m it = Some (Inr (it\<lparr>cur := Some b\<rparr>)) \<and>
            post_dec m it = Some (Inr (it, it\<lparr>cur := Some b\<rparr>)))"
proof (intro conjI allI impI; (elim conjE)?)
  assume a: "cur it = None" "root m \<noteq> Null"
  then have nn: "root m \<noteq> Null" by simp
  obtain a kv sl sp sh pre where mx: "maxNode (root m) = Node a kv sl Null sp sh"
    "entries (root m) = pre @ [(a, kv)]" using maxNode_entries [OF nn] by blast
  have "bst cmp (root m)" using assms(1) by (simp add: map_inv_def)
  then have "sorted_wrt cmp (map (fst \<circ> snd) pre @ [fst kv])"
    using mx(2) by (simp add: bst_def keys_entries)
  then have gt: "\<forall>e\<in>set pre. cmp (fst (snd e)) (fst kv)"
    using sorted_wrt_last [of cmp "map (fst \<circ> snd) pre" "fst kv"] by simp
  have "pre_dec m it = Some (Inr (it\<lparr>cur := Some a\<rparr>))"
    "post_dec m it = Some (Inr (it, it\<lparr>cur := Some a\<rparr>))"
    using a assms(2) mx(1) by (simp_all add: pre_dec_def post_dec_def)
  then show "\<exists>pre a k v. entries (root m) = pre @ [(a, (k, v))] \<and>
               (\<forall>e\<in>set pre. cmp (fst (snd e)) k) \<and>
               pre_dec m it = Some (Inr (it\<lparr>cur := Some a\<rparr>)) \<and>
               post_dec m it = Some (Inr (it, it\<lparr>cur := Some a\<rparr>))"
    using mx(2) gt
    by (intro exI [of _ pre] exI [of _ a] exI [of _ "fst kv"] exI [of _ "snd kv"]) simp
next
  fix a rest
  assume a: "cur it = Some a" "addrs (root m) = a # rest"
  then have nn: "root m \<noteq> Null" by auto
  have "ptr_of (minNode (root m)) = Some a" using minNode_ptr [OF nn] a by simp
  then show "pre_dec m it = Some (Inl invalid_iterator)"
    "post_dec m it = Some (Inl invalid_iterator)"
    using a assms(2) by (simp_all add: pre_dec_def post_dec_def)
next
  fix xs b a ys
  assume a: "cur it = Some a" "addrs (root m) = xs @ b # a # ys"
  have I: "distinct (addrs (root m))" "parents_ok None (root m)"
    using assms(1) by (simp_all add: map_inv_def)
  have nn: "root m \<noteq> Null" using a by auto
  have "hd (addrs (root m)) \<noteq> a" using I(1) a by (cases xs) auto
  then have 1: "cur it \<noteq> ptr_of (minNode (root m))" using minNode_ptr [OF nn] a by simp
  have 2: "predecessor (root m) (cur it) = Some (Some b)"
    using predecessor_inorder [OF I, of xs b a ys] a by simp
  show "pre_dec m it = Some (Inr (it\<lparr>cur := Some b\<rparr>))"
    "post_dec m it = Some (Inr (it, it\<lparr>cur := Some b\<rparr>))"
    using a assms(2) 1 2 by (simp_all add: pre_dec_def post_dec_def)
qed

theorem iterator_retreat_witness:
  "map_inv (<) ex_map \<and> root ex_map \<noteq> Null \<and>
   pre_dec ex_map \<lparr>cur = None, owner = Some 0\<rparr> = Some (Inr \<lparr>cur = Some 3, owner = Some 0\<rparr>) \<and>
   addrs (root ex_map) = 2 # [1, 3] \<and>
   pre_dec ex_map \<lparr>cur = Some 2, owner = Some 0\<rparr> = Some (Inl invalid_iterator) \<and>
   addrs (root ex_map) = [] @ 2 # 1 # [3] \<and>
   pre_dec ex_map \<lparr>cur = Some 1, owner = Some 0\<rparr> = Some (Inr \<lparr>cur = Some 2, owner = Some 0\<rparr>) \<and>
   post_dec ex_map \<lparr>cur = Some 1, owner = Some 0\<rparr> =
     Some (Inr (\<lparr>cur = Some 1, owner = Some 0\<rparr>, \<lparr>cur = Some 2, owner = Some 0\<rparr>)) \<and>
   addrs (root ex_map) = [2] @ 1 # 3 # [] \<and>
   pre_dec ex_map \<lparr>cur = Some 3, owner = Some 0\<rparr> = Some (Inr \<lparr>cur = Some 1, owner = Some 0\<rparr>)"
proof -
  have 1: "map_inv (<) ex_map" by (rule ex_map_inv)
  have 2: "owner \<lparr>cur = None, owner = Some 0\<rparr> \<noteq> None"
    "owner \<lparr>cur = Some 2, owner = Some 0\<rparr> \<noteq> None"
    "owner \<lparr>cur = Some 1, owner = Some 0\<rparr> \<noteq> None"
    "owner \<lparr>cur = Some 3, owner = Some 0\<rparr> \<noteq> None" by simp_all
  have 3: "root ex_map \<noteq> Null" "addrs (root ex_map) = 2 # [1, 3]"
    "addrs (root ex_map) = [] @ 2 # 1 # [3]" "addrs (root ex_map) = [2] @ 1 # 3 # []"
    "entries (root ex_map) = [(2, (3, 30)), (1, (5, 50))] @ [(3, (8, 80))]"
    by (simp_all add: ex_map_def)
  note A = iterator_retreat [OF 1 2(1), THEN conjunct1]
  note B = iterator_retreat [OF 1 2(2), THEN conjunct2, THEN conjunct1,
      THEN spec [where x = 2], THEN spec [where x = "[1, 3]"]]
  note C = iterator_retreat [OF 1 2(3), THEN conjunct2, THEN conjunct2,
      THEN spec [where x = "[]"], THEN spec [where x = 2], THEN spec [where x = 1],
      THEN spec [where x = "[3]"]]
  note D = iterator_retreat [OF 1 2(4), THEN conjunct2, THEN conjunct2,
      THEN spec [where x = "[2]"], THEN spec [where x = 1], THEN spec [where x = 3],
      THEN spec [where x = "[]"]]
  from A 3(1) obtain pre a k v where
    a: "entries (root ex_map) = pre @ [(a, (k, v))]"
      "pre_dec ex_map \<lparr>cur = None, owner = Some 0\<rparr> =
         Some (Inr (\<lparr>cur = None, owner = Some 0\<rparr>\<lparr>cur := Some a\<rparr>))"
    by auto
  have "a = 3" using a(1) 3(5) by simp
  then have a': "pre_dec ex_map \<lparr>cur = None, owner = Some 0\<rparr> =
      Some (Inr \<lparr>cur = Some 3, owner = Some 0\<rparr>)" using a(2) by simp
  have b: "pre_dec ex_map \<lparr>cur = Some 2, owner = Some 0\<rparr> = Some (Inl invalid_iterator)"
    using B 3(2) by simp
  have c: "pre_dec ex_map \<lparr>cur = Some 1, owner = Some 0\<rparr> =
       Some (Inr \<lparr>cur = Some 2, owner = Some 0\<rparr>)"
     "post_dec ex_map \<lparr>cur = Some 1, owner = Some 0\<rparr> =
     Some (Inr (\<lparr>cur = Some 1, owner = Some 0\<rparr>, \<lparr>cur = Some 2, owner = Some 0\<rparr>))"
    using C 3(3) by auto
  have d: "pre_dec ex_map \<lparr>cur = Some 3, owner = Some 0\<rparr> =
       Some (Inr \<lparr>cur = Some 1, owner = Some 0\<rparr>)"
    using D 3(4) by auto
  show ?thesis using 1 3(1,2,3,4) a' b c d by simp
qed

text \<open>
  C9, as the code has it. \<open>operator*\<close> returns the pair stored in the current node, and
  throws \<open>invalid_iterator\<close> when the iterator is past-the-end or bound to no container.
  \<open>operator->\<close> returns the address of the pair in the current node, and for a
  past-the-end or unbound iterator it returns the null pointer: it throws nothing.
\<close>

theorem dereference_forms:
  "(owner it = None \<or> cur it = None \<longrightarrow>
       star m it = Some (Inl invalid_iterator) \<and> arrow it = Inr None) \<and>
   (owner it \<noteq> None \<and> cur it = Some a \<and> node_at (root m) a = Node a v l r p ht \<longrightarrow>
       star m it = Some (Inr v) \<and> arrow it = Inr (Some a))"
  by (auto simp: star_def arrow_def)

theorem dereference_forms_witness:
  "cur \<lparr>cur = None, owner = Some 0\<rparr> = None \<and>
   star ex_map \<lparr>cur = None, owner = Some 0\<rparr> = Some (Inl invalid_iterator) \<and>
   arrow \<lparr>cur = None, owner = Some 0\<rparr> = Inr None \<and>
   owner \<lparr>cur = Some 2, owner = Some 0\<rparr> \<noteq> None \<and> cur \<lparr>cur = Some 2, owner = Some 0\<rparr> = Some 2 \<and>
   node_at (root ex_map) 2 = Node 2 (3, 30) Null Null (Some 1) 1 \<and>
   star ex_map \<lparr>cur = Some 2, owner = Some 0\<rparr> = Some (Inr (3, 30)) \<and>
   arrow \<lparr>cur = Some 2, owner = Some 0\<rparr> = Inr (Some 2)"
  using dereference_forms [of "\<lparr>cur = None, owner = Some 0\<rparr>" ex_map]
    dereference_forms [where it = "\<lparr>cur = Some 2, owner = Some 0\<rparr>" and a = 2 and m = ex_map
      and v = "(3, 30)" and l = Null and r = Null and p = "Some 1" and ht = 1]
  by (simp add: ex_map_def)

theorem arrow_past_the_end_counterexample:
  "arrow \<lparr>cur = None, owner = Some 0\<rparr> = Inr None \<and>
   arrow \<lparr>cur = None, owner = Some 0\<rparr> \<noteq> Inl invalid_iterator \<and>
   arrow \<lparr>cur = Some 2, owner = None\<rparr> \<noteq> Inl invalid_iterator"
  by (simp add: arrow_def)

text \<open>
  C10. \<open>begin()\<close> equals \<open>end()\<close> exactly when the map is empty. On an empty map
  \<open>begin()\<close> and \<open>cbegin()\<close> are the past-the-end position; on a non-empty map
  \<open>begin()\<close> is the first node of the in-order traversal, whose key compares before
  every other key, and it differs from \<open>end()\<close>. The member \<open>n\<close> is a 64 bit count,
  so the number of nodes is taken to be below \<open>2 ^ 64\<close>, as it is in any address space.
\<close>

theorem begin_end_empty:
  assumes "map_inv cmp m" and "length (addrs (root m)) < 2 ^ 64"
  shows "(iter_eq (begin_it this m) (end_it this m) = empty_map m) \<and>
         (empty_map m \<longrightarrow> begin_it this m = end_it this m \<and> cbegin this m = cend this m \<and>
            cur (begin_it this m) = None \<and> cur (cbegin this m) = None) \<and>
         (\<not> empty_map m \<longrightarrow> \<not> iter_eq (begin_it this m) (end_it this m) \<and>
            (\<exists>a k v rest. entries (root m) = (a, (k, v)) # rest \<and>
               cur (begin_it this m) = Some a \<and> cur (cbegin this m) = Some a \<and>
               (\<forall>e\<in>set rest. cmp k (fst (snd e)))))"
proof -
  have I: "bst cmp (root m)" "n m = of_nat (length (addrs (root m)))"
    using assms(1) by (simp_all add: map_inv_def)
  have em: "empty_map m = (root m = Null)"
    using I(2) word64_of_nat_eq_0 [OF assms(2)] by (simp add: empty_map_def)
  show ?thesis
  proof (cases "root m = Null")
    case True
    then show ?thesis using em
      by (simp add: iter_eq_def begin_it_def end_it_def cbegin_def cend_def)
  next
    case False
    obtain a kv sr sp sh rest where mn: "minNode (root m) = Node a kv Null sr sp sh"
      "entries (root m) = (a, kv) # rest" using minNode_entries [OF False] by blast
    have "sorted_wrt cmp (map (fst \<circ> snd) (entries (root m)))"
      using I(1) by (simp add: bst_def keys_entries)
    then have "\<forall>e\<in>set rest. cmp (fst kv) (fst (snd e))" using mn(2) by simp
    then have "\<exists>a' k v rest'. entries (root m) = (a', (k, v)) # rest' \<and>
               cur (begin_it this m) = Some a' \<and> cur (cbegin this m) = Some a' \<and>
               (\<forall>e\<in>set rest'. cmp k (fst (snd e)))"
      using mn by (intro exI [of _ a] exI [of _ "fst kv"] exI [of _ "snd kv"] exI [of _ rest])
        (simp add: begin_it_def cbegin_def)
    moreover have "\<not> iter_eq (begin_it this m) (end_it this m)"
      using mn(1) by (simp add: iter_eq_def begin_it_def end_it_def)
    ultimately show ?thesis using em False by simp
  qed
qed

theorem begin_end_empty_witness:
  "map_inv (<) ex_map \<and> length (addrs (root ex_map)) < 2 ^ 64 \<and> \<not> empty_map ex_map \<and>
   \<not> iter_eq (begin_it 0 ex_map) (end_it 0 ex_map) \<and>
   cur (begin_it 0 ex_map) = Some 2 \<and>
   map_inv (<) (map_default :: (int, int) map_state) \<and>
   length (addrs (root (map_default :: (int, int) map_state))) < 2 ^ 64 \<and>
   empty_map (map_default :: (int, int) map_state) \<and>
   begin_it 0 (map_default :: (int, int) map_state) =
     end_it 0 (map_default :: (int, int) map_state)"
proof -
  have 1: "map_inv (<) ex_map" by (rule ex_map_inv)
  have 2: "length (addrs (root ex_map)) < 2 ^ 64" by (simp add: ex_map_def)
  have 3: "map_inv (<) (map_default :: (int, int) map_state)"
    by (simp add: map_default_def map_inv_def)
  have 4: "length (addrs (root (map_default :: (int, int) map_state))) < 2 ^ 64"
    by (simp add: map_default_def)
  have 5: "\<not> empty_map ex_map" "empty_map (map_default :: (int, int) map_state)"
    by (simp_all add: empty_map_def ex_map_def map_default_def)
  have 6: "cur (begin_it 0 ex_map) = Some 2" by (simp add: begin_it_def ex_map_def)
  show ?thesis
    using 1 2 3 4 5 6 begin_end_empty [OF 1 2, of 0] begin_end_empty [OF 3 4, of 0]
    by simp
qed

end
